theory Spec2Isabelle
  imports Main "HOL-Library.Word"
begin

unbundle bit_operations_syntax

section \<open>Data model (src/src/hamt.ts, lines 4-39)\<close>

text \<open>
  A \<open>Hash\<close> is an unsigned 32-bit number (\<open>hash\<close> ends with \<open>h >>> 0\<close>).  Bitmaps are
  JavaScript numbers that are only ever combined with the 32-bit operators
  \<open>&\<close>, \<open>|\<close>, \<open>~\<close>, \<open>>>>\<close> and compared with \<open>0\<close>, so a bitmap is modelled by its
  32-bit pattern.  A key is a JavaScript string, i.e. a sequence of UTF-16 code units.
\<close>

type_synonym Hash = "32 word"
type_synonym Hashable = "16 word list"

datatype 'v HAMTNode =
    Leaf Hash "(Hashable \<times> 'v) list"
  | Internal "32 word" "'v HAMTNode list"

record 'v HAMT =
  root :: "'v HAMTNode option"
  size_hamt :: int

text \<open>
  What does not return a value: reading \<open>.type\<close> of an absent child
  (\<open>children[idx]\<close> out of range is \<open>undefined\<close>) throws a TypeError, and a recursion
  that never stops exhausts the call stack.
\<close>

datatype error = TypeError | StackOverflow

definition createLeaf :: "Hash \<Rightarrow> Hashable \<Rightarrow> 'v \<Rightarrow> 'v HAMTNode" where
  "createLeaf hash key value = Leaf hash [(key, value)]"

definition createInternal :: "32 word \<Rightarrow> 'v HAMTNode list \<Rightarrow> 'v HAMTNode" where
  "createInternal bitmap children = Internal bitmap children"

text \<open>The literal \<open>{ root: none, size: 0 }\<close> with which README.md and the tests start.\<close>

definition empty_hamt :: "'v HAMT" where
  "empty_hamt = \<lparr>root = None, size_hamt = 0\<rparr>"

section \<open>Hashing and indexing (lines 41-72)\<close>

fun hash_loop :: "Hashable \<Rightarrow> 32 word \<Rightarrow> 32 word" where
  "hash_loop [] h = h"
| "hash_loop (c # cs) h = hash_loop cs (31 * h + ucast c)"

definition hash :: "Hashable \<Rightarrow> Hash" where
  "hash key =
    (let h0 = hash_loop key 0;
         h1 = h0 XOR drop_bit 16 h0;
         h2 = h1 * 0x85ebca6b;
         h3 = h2 XOR drop_bit 13 h2;
         h4 = h3 * 0xc2b2ae35
     in h4 XOR drop_bit 16 h4)"

text \<open>
  JavaScript's \<open>>>>\<close> takes its shift count modulo 32.  A parameter that the source
  names \<open>hash\<close>, like the function, is \<open>hash'\<close> here.
\<close>

definition maskHash :: "Hash \<Rightarrow> nat \<Rightarrow> 32 word" where
  "maskHash hash' shift = drop_bit (shift mod 32) hash' AND 0x1f"

definition bitpos :: "Hash \<Rightarrow> nat \<Rightarrow> 32 word" where
  "bitpos hash' shift = (let masked = maskHash hash' shift in push_bit (unat masked) 1)"

definition popcount :: "32 word \<Rightarrow> 32 word" where
  "popcount x0 =
    (let x1 = x0 - (drop_bit 1 x0 AND 0x55555555);
         x2 = (x1 AND 0x33333333) + (drop_bit 2 x1 AND 0x33333333);
         x3 = (x2 + drop_bit 4 x2) AND 0x0f0f0f0f;
         x4 = x3 + drop_bit 8 x3;
         x5 = x4 + drop_bit 16 x4
     in x5 AND 0x3f)"

section \<open>Insert (lines 74-170)\<close>

text \<open>
  \<open>mergeLeaves\<close> recurses on \<open>shift + 5\<close> with nothing that bounds the recursion, so it is
  a partial function: \<open>None\<close> is the call that never returns.
\<close>

partial_function (option) mergeLeaves ::
  "nat \<Rightarrow> Hash \<Rightarrow> (Hashable \<times> 'v) list \<Rightarrow> Hash \<Rightarrow> Hashable \<Rightarrow> 'v \<Rightarrow> 'v HAMTNode option"
where
  "mergeLeaves shift nodeHash nodeEntries hash' key value =
    (if bitpos nodeHash shift = bitpos hash' shift then
       Option.bind (mergeLeaves (shift + 5) nodeHash nodeEntries hash' key value)
         (\<lambda>newNode. Some (createInternal (bitpos nodeHash shift) [newNode]))
     else
       Some (createInternal (bitpos nodeHash shift OR bitpos hash' shift)
         (if bitpos nodeHash shift < bitpos hash' shift
          then [Leaf nodeHash nodeEntries, createLeaf hash' key value]
          else [createLeaf hash' key value, Leaf nodeHash nodeEntries])))"

text \<open>\<open>Array.prototype.findIndex\<close>: the first index whose element satisfies the test, or -1.\<close>

fun findIndex :: "('a \<Rightarrow> bool) \<Rightarrow> 'a list \<Rightarrow> int" where
  "findIndex P [] = - 1"
| "findIndex P (x # xs) =
    (if P x then 0 else (let i = findIndex P xs in if i = - 1 then - 1 else i + 1))"

definition updateLeafNode ::
  "Hash \<Rightarrow> (Hashable \<times> 'v) list \<Rightarrow> Hash \<Rightarrow> nat \<Rightarrow> Hashable \<Rightarrow> 'v \<Rightarrow> error + ('v HAMTNode \<times> bool)"
where
  "updateLeafNode nodeHash nodeEntries hash' shift key value =
    (if nodeHash = hash' then
       (let index = findIndex (\<lambda>(k, _). k = key) nodeEntries in
        if index \<noteq> - 1
        then Inr (Leaf nodeHash (nodeEntries[nat index := (key, value)]), False)
        else Inr (Leaf nodeHash (nodeEntries @ [(key, value)]), True))
     else
       (case mergeLeaves shift nodeHash nodeEntries hash' key value of
          None \<Rightarrow> Inl StackOverflow
        | Some merged \<Rightarrow> Inr (merged, True)))"

text \<open>
  \<open>updateNode\<close> and \<open>updateInternalNode\<close> call each other.  A node of the source is passed
  here as its fields.  \<open>newChild === child\<close> compares references; the model compares
  values, which are equal whenever the references are.  Lemma \<open>updateNode_same\<close> below
  shows that a child returned equal comes with \<open>inserted = false\<close>, so this branch
  returns the pair that the next one would return.
\<close>

function updateNode ::
  "'v HAMTNode \<Rightarrow> Hash \<Rightarrow> nat \<Rightarrow> Hashable \<Rightarrow> 'v \<Rightarrow> error + ('v HAMTNode \<times> bool)"
and updateInternalNode ::
  "32 word \<Rightarrow> 'v HAMTNode list \<Rightarrow> Hash \<Rightarrow> nat \<Rightarrow> Hashable \<Rightarrow> 'v \<Rightarrow> error + ('v HAMTNode \<times> bool)"
where
  "updateNode (Leaf nodeHash nodeEntries) hash' shift key value =
     updateLeafNode nodeHash nodeEntries hash' shift key value"
| "updateNode (Internal bitmap children) hash' shift key value =
     updateInternalNode bitmap children hash' shift key value"
| "updateInternalNode bitmap children hash' shift key value =
    (let bit = bitpos hash' shift;
         idx = unat (popcount (bitmap AND (bit - 1)))
     in if bitmap AND bit \<noteq> 0 then
          (if idx < length children then
             (case updateNode (children ! idx) hash' (shift + 5) key value of
                Inl e \<Rightarrow> Inl e
              | Inr (newChild, inserted) \<Rightarrow>
                  if newChild = children ! idx then Inr (Internal bitmap children, False)
                  else Inr (createInternal bitmap (children[idx := newChild]), inserted))
           else Inl TypeError)
        else
          Inr (createInternal (bitmap OR bit)
                 (take idx children @ [createLeaf hash' key value] @ drop idx children), True))"
  by pat_completeness auto

termination updateNode
  by (relation "measure (case_sum (\<lambda>(n, _). 2 * size n)
                                   (\<lambda>(_, cs, _). 2 * size_list size cs + 1))")
     (auto simp: less_Suc_eq_le intro!: size_list_estimation'[OF nth_mem])

definition insert_hamt :: "'v HAMT \<Rightarrow> Hashable \<Rightarrow> 'v \<Rightarrow> error + 'v HAMT" where
  "insert_hamt hamt key value =
    (let keyHash = hash key in
     case root hamt of
       None \<Rightarrow>
         Inr \<lparr>root = Some (createLeaf keyHash key value), size_hamt = size_hamt hamt + 1\<rparr>
     | Some node \<Rightarrow>
         (case updateNode node keyHash 0 key value of
            Inl e \<Rightarrow> Inl e
          | Inr (newNode, inserted) \<Rightarrow>
              Inr \<lparr>root = Some newNode,
                   size_hamt = size_hamt hamt + (if inserted then 1 else 0)\<rparr>))"

section \<open>Lookup (lines 172-208)\<close>

text \<open>\<open>entries.find(([k]) => k === key)\<close>, then \<open>entry ? some(entry[1]) : none\<close>.\<close>

definition lookupLeafNode :: "Hash \<Rightarrow> (Hashable \<times> 'v) list \<Rightarrow> Hash \<Rightarrow> Hashable \<Rightarrow> 'v option" where
  "lookupLeafNode nodeHash nodeEntries hash' key =
    (if nodeHash = hash' then
       (case find (\<lambda>(k, _). k = key) nodeEntries of
          Some entry \<Rightarrow> Some (snd entry)
        | None \<Rightarrow> None)
     else None)"

function lookupNode :: "'v HAMTNode \<Rightarrow> Hash \<Rightarrow> nat \<Rightarrow> Hashable \<Rightarrow> error + 'v option"
and lookupInternalNode ::
  "32 word \<Rightarrow> 'v HAMTNode list \<Rightarrow> Hash \<Rightarrow> nat \<Rightarrow> Hashable \<Rightarrow> error + 'v option"
where
  "lookupNode (Leaf nodeHash nodeEntries) hash' shift key =
     Inr (lookupLeafNode nodeHash nodeEntries hash' key)"
| "lookupNode (Internal bitmap children) hash' shift key =
     lookupInternalNode bitmap children hash' shift key"
| "lookupInternalNode bitmap children hash' shift key =
    (let bit = bitpos hash' shift in
     if bitmap AND bit = 0 then Inr None
     else
       (let idx = unat (popcount (bitmap AND (bit - 1))) in
        if idx < length children then lookupNode (children ! idx) hash' (shift + 5) key
        else Inl TypeError))"
  by pat_completeness auto

termination lookupNode
  by (relation "measure (case_sum (\<lambda>(n, _). 2 * size n)
                                   (\<lambda>(_, cs, _). 2 * size_list size cs + 1))")
     (auto simp: less_Suc_eq_le intro!: size_list_estimation'[OF nth_mem])

definition lookup :: "'v HAMT \<Rightarrow> Hashable \<Rightarrow> error + 'v option" where
  "lookup hamt key =
    (let keyHash = hash key in
     case root hamt of
       None \<Rightarrow> Inr None
     | Some node \<Rightarrow> lookupNode node keyHash 0 key)"

section \<open>Remove (lines 210-293)\<close>

definition removeLeafNode ::
  "Hash \<Rightarrow> (Hashable \<times> 'v) list \<Rightarrow> Hash \<Rightarrow> Hashable \<Rightarrow> 'v HAMTNode option \<times> bool"
where
  "removeLeafNode nodeHash nodeEntries hash' key =
    (if nodeHash = hash' then
       (let newEntries = filter (\<lambda>(k, _). k \<noteq> key) nodeEntries in
        if length newEntries = 0 then (None, True)
        else if length newEntries = length nodeEntries
             then (Some (Leaf nodeHash nodeEntries), False)
        else (Some (Leaf nodeHash newEntries), True))
     else (Some (Leaf nodeHash nodeEntries), False))"

function removeNode ::
  "'v HAMTNode \<Rightarrow> Hash \<Rightarrow> nat \<Rightarrow> Hashable \<Rightarrow> error + ('v HAMTNode option \<times> bool)"
and removeInternalNode ::
  "32 word \<Rightarrow> 'v HAMTNode list \<Rightarrow> Hash \<Rightarrow> nat \<Rightarrow> Hashable
     \<Rightarrow> error + ('v HAMTNode option \<times> bool)"
where
  "removeNode (Leaf nodeHash nodeEntries) hash' shift key =
     Inr (removeLeafNode nodeHash nodeEntries hash' key)"
| "removeNode (Internal bitmap children) hash' shift key =
     removeInternalNode bitmap children hash' shift key"
| "removeInternalNode bitmap children hash' shift key =
    (let bit = bitpos hash' shift in
     if bitmap AND bit = 0 then Inr (Some (Internal bitmap children), False)
     else
       (let idx = unat (popcount (bitmap AND (bit - 1))) in
        if idx < length children then
          (case removeNode (children ! idx) hash' (shift + 5) key of
             Inl e \<Rightarrow> Inl e
           | Inr (newChild, deleted) \<Rightarrow>
               if \<not> deleted then Inr (Some (Internal bitmap children), False)
               else
                 (case newChild of
                    None \<Rightarrow>
                      (let newBitmap = bitmap AND NOT bit in
                       if newBitmap = 0 then Inr (None, True)
                       else Inr (Some (createInternal newBitmap
                                   (take idx children @ drop (idx + 1) children)), True))
                  | Some c \<Rightarrow> Inr (Some (createInternal bitmap (children[idx := c])), True)))
        else Inl TypeError))"
  by pat_completeness auto

termination removeNode
  by (relation "measure (case_sum (\<lambda>(n, _). 2 * size n)
                                   (\<lambda>(_, cs, _). 2 * size_list size cs + 1))")
     (auto simp: less_Suc_eq_le intro!: size_list_estimation'[OF nth_mem])

definition remove_hamt :: "'v HAMT \<Rightarrow> Hashable \<Rightarrow> error + 'v HAMT" where
  "remove_hamt hamt key =
    (let keyHash = hash key in
     case root hamt of
       None \<Rightarrow> Inr \<lparr>root = None, size_hamt = max 0 (size_hamt hamt + 0)\<rparr>
     | Some node \<Rightarrow>
         (case removeNode node keyHash 0 key of
            Inl e \<Rightarrow> Inl e
          | Inr (newNode, deleted) \<Rightarrow>
              Inr \<lparr>root = newNode,
                   size_hamt = max 0 (size_hamt hamt + (if deleted then - 1 else 0))\<rparr>))"

section \<open>Maps built from the empty map\<close>

datatype 'v operation = Insert Hashable 'v | Remove Hashable

fun applyOp :: "'v HAMT \<Rightarrow> 'v operation \<Rightarrow> error + 'v HAMT" where
  "applyOp hamt (Insert key value) = insert_hamt hamt key value"
| "applyOp hamt (Remove key) = remove_hamt hamt key"

fun applyOps :: "'v HAMT \<Rightarrow> 'v operation list \<Rightarrow> error + 'v HAMT" where
  "applyOps hamt [] = Inr hamt"
| "applyOps hamt (x # xs) =
    (case applyOp hamt x of Inl e \<Rightarrow> Inl e | Inr hamt' \<Rightarrow> applyOps hamt' xs)"

definition build :: "'v operation list \<Rightarrow> error + 'v HAMT" where
  "build ops = applyOps empty_hamt ops"

section \<open>Definitions for the specification\<close>

text \<open>
  A number read as a list of fields of \<open>w\<close> bits, lowest field first; the sums of
  neighbouring fields are what one step of the \<open>popcount\<close> reduction computes.
\<close>

fun pack :: "nat \<Rightarrow> nat list \<Rightarrow> nat" where
  "pack w [] = 0"
| "pack w (f # fs) = f + 2 ^ w * pack w fs"

fun evens :: "'a list \<Rightarrow> 'a list" where
  "evens [] = []"
| "evens [a] = [a]"
| "evens (a # b # r) = a # evens r"

fun pairsum :: "nat list \<Rightarrow> nat list" where
  "pairsum [] = []"
| "pairsum [a] = [a]"
| "pairsum (a # b # r) = (a + b) # pairsum r"

text \<open>
  The positions of the set bits of a bitmap in ascending order, the number of set bits
  below a position (the compact-array slot of that branch), and the 5-bit slice of a
  hash as a number.
\<close>

definition bitsOf :: "32 word \<Rightarrow> nat list" where
  "bitsOf bm = filter (bit bm) [0..<32]"

definition rank :: "32 word \<Rightarrow> nat \<Rightarrow> nat" where
  "rank bm i = length (filter (bit bm) [0..<i])"

definition sliceAt :: "Hash \<Rightarrow> nat \<Rightarrow> nat" where
  "sliceAt h s = unat (maskHash h s)"

text \<open>
  The invariant of a node reached from the root along the branch indices \<open>p\<close>: a Leaf
  is non-empty, has pairwise distinct keys and a hash whose slices are \<open>p\<close>; an
  Internal node lies at most 6 levels below the root, has a nonzero bitmap and one
  child per set bit, each child satisfying the invariant one level further down.
\<close>

definition onPath :: "nat list \<Rightarrow> Hash \<Rightarrow> bool" where
  "onPath p h = (\<forall>j<length p. sliceAt h (5 * j) = p ! j)"

fun invar :: "nat list \<Rightarrow> 'v HAMTNode \<Rightarrow> bool" where
  "invar p (Leaf h es) = (es \<noteq> [] \<and> distinct (map fst es) \<and> onPath p h)"
| "invar p (Internal bm cs) =
    (length p \<le> 6 \<and> bm \<noteq> 0 \<and> list_all2 (\<lambda>i c. invar (p @ [i]) c) (bitsOf bm) cs)"

fun entryCount :: "'v HAMTNode \<Rightarrow> nat" where
  "entryCount (Leaf h es) = length es"
| "entryCount (Internal bm cs) = sum_list (map entryCount cs)"

text \<open>Lookup and entry count of what \<open>removeNode\<close> returns in place of a node.\<close>

definition lookupOpt :: "'v HAMTNode option \<Rightarrow> Hash \<Rightarrow> nat \<Rightarrow> Hashable \<Rightarrow> error + 'v option" where
  "lookupOpt r h s k = (case r of None \<Rightarrow> Inr None | Some n \<Rightarrow> lookupNode n h s k)"

definition countOpt :: "'v HAMTNode option \<Rightarrow> nat" where
  "countOpt r = (case r of None \<Rightarrow> 0 | Some n \<Rightarrow> entryCount n)"

text \<open>
  The invariant of a map, the set of keys that \<open>lookup\<close> finds, and the two
  properties of a trie that claims C8 and C10 speak of: its shape and its depth.
\<close>

definition invar_hamt :: "'v HAMT \<Rightarrow> bool" where
  "invar_hamt m = (case root m of None \<Rightarrow> size_hamt m = 0
            | Some n \<Rightarrow> invar [] n \<and> size_hamt m = int (entryCount n))"

definition keysOf :: "'v HAMT \<Rightarrow> Hashable set" where
  "keysOf m = {k. \<exists>v. lookup m k = Inr (Some v)}"

fun depth :: "'v HAMTNode \<Rightarrow> nat" where
  "depth (Leaf h es) = 0"
| "depth (Internal bm cs) = Suc (fold max (map depth cs) 0)"

fun wellFormed :: "'v HAMTNode \<Rightarrow> bool" where
  "wellFormed (Leaf h es) = (es \<noteq> [])"
| "wellFormed (Internal bm cs) =
     (bm \<noteq> 0 \<and> length cs = unat (popcount bm) \<and> (\<forall>c\<in>set cs. wellFormed c))"

declare mergeLeaves.simps [code]

text \<open>
  The equations of the mutually recursive functions are unfolded by hand, through the
  lemmas \<open>lookupNode_Internal\<close>, \<open>updateNode_Internal\<close> and \<open>removeNode_Internal\<close>.
\<close>

declare lookupInternalNode.simps [simp del] updateInternalNode.simps [simp del]
  removeInternalNode.simps [simp del]
declare updateNode.simps(2) [simp del] lookupNode.simps(2) [simp del]
  removeNode.simps(2) [simp del]

section \<open>Correctness of \<open>popcount\<close>\<close>

lemma and_split_nat:
  fixes a c r s :: nat
  assumes "a < 2 ^ k" "c < 2 ^ k"
  shows "(a + 2 ^ k * r) AND (c + 2 ^ k * s) = (a AND c) + 2 ^ k * (r AND s)"
proof -
  let ?L = "(a + 2 ^ k * r) AND (c + 2 ^ k * s)"
  have "take_bit k (a + 2 ^ k * r) = a" "take_bit k (c + 2 ^ k * s) = c"
    using assms by (simp_all add: take_bit_eq_mod)
  then have t: "take_bit k ?L = a AND c"
    by (simp only: take_bit_and)
  have "drop_bit k (a + 2 ^ k * r) = r" "drop_bit k (c + 2 ^ k * s) = s"
    using assms by (simp_all add: drop_bit_eq_div)
  then have d: "drop_bit k ?L = r AND s"
    by (simp only: drop_bit_and)
  have "?L = take_bit k ?L + 2 ^ k * drop_bit k ?L"
    by (simp add: take_bit_eq_mod drop_bit_eq_div)
  then show ?thesis by (simp only: t d)
qed

lemma pack_lt: "\<forall>f\<in>set fs. f < 2 ^ w \<Longrightarrow> pack w fs < 2 ^ (w * length fs)"
proof (induction fs)
  case Nil then show ?case by simp
next
  case (Cons f fs)
  then have "f < 2 ^ w" "pack w fs < 2 ^ (w * length fs)" by simp_all
  then have "f + 2 ^ w * pack w fs < 2 ^ w * (1 + pack w fs)" by simp
  also have "\<dots> \<le> 2 ^ w * 2 ^ (w * length fs)"
    using \<open>pack w fs < _\<close> by (intro mult_le_mono2) simp
  finally show ?case by (simp add: power_add)
qed

lemma pack_and_mask:
  "\<forall>f\<in>set fs. f < 2 ^ w \<Longrightarrow> length (evens fs) \<le> n \<Longrightarrow>
   pack w fs AND pack (2 * w) (replicate n (mask w)) = pack (2 * w) (evens fs)"
proof (induction fs arbitrary: n rule: evens.induct)
  case 1 then show ?case by simp
next
  case (2 a)
  then obtain m where n: "n = Suc m" by (cases n) auto
  have a: "a < 2 ^ (2 * w)" using 2(1) 
    by (metis list.set_intros(1) less_le_trans one_le_numeral power_increasing le_add2 mult_2)
  have c: "(mask w :: nat) < 2 ^ (2 * w)"
    by (rule less_le_trans[OF mask_nat_less_exp]) simp
  have "(a + 2 ^ (2 * w) * 0) AND (mask w + 2 ^ (2 * w) * pack (2 * w) (replicate m (mask w)))
      = (a AND (mask w)) + 2 ^ (2 * w) * (0 AND pack (2 * w) (replicate m (mask w)))"
    by (rule and_split_nat[OF a c])
  moreover have "a AND (mask w) = a"
    using 2(1) by (simp add: take_bit_eq_mod flip: take_bit_eq_mask)
  ultimately show ?case by (simp add: n)
next
  case (3 a b r)
  then obtain m where n: "n = Suc m" and m: "length (evens r) \<le> m" by (cases n) auto
  have ab: "a < 2 ^ w" "b < 2 ^ w" using 3(2) by simp_all
  have "a + 2 ^ w * b < 2 ^ w * (1 + b)" using ab by simp
  also have "\<dots> \<le> 2 ^ w * 2 ^ w" using ab by (intro mult_le_mono2) simp
  finally have a: "a + 2 ^ w * b < 2 ^ (2 * w)" by (simp add: power_add mult_2)
  have c: "(mask w :: nat) < 2 ^ (2 * w)"
    by (rule less_le_trans[OF mask_nat_less_exp]) simp
  have IH: "pack w r AND pack (2 * w) (replicate m (mask w)) = pack (2 * w) (evens r)"
    using 3 m by simp
  have sp: "((a + 2 ^ w * b) + 2 ^ (2 * w) * pack w r) AND (mask w + 2 ^ (2 * w) * pack (2 * w) (replicate m (mask w)))
      = ((a + 2 ^ w * b) AND mask w) + 2 ^ (2 * w) * (pack w r AND pack (2 * w) (replicate m (mask w)))"
    by (rule and_split_nat[OF a c])
  have lo: "(a + 2 ^ w * b) AND mask w = a"
    using ab by (simp add: take_bit_eq_mod flip: take_bit_eq_mask)
  have e1: "pack w (a # b # r) = (a + 2 ^ w * b) + 2 ^ (2 * w) * pack w r"
  proof -
    have "(2::nat) ^ (2 * w) = 2 ^ w * 2 ^ w" by (metis mult_2 power_add)
    then show ?thesis by (simp add: algebra_simps)
  qed
  have e2: "pack (2 * w) (replicate n (mask w)) = mask w + 2 ^ (2 * w) * pack (2 * w) (replicate m (mask w))"
    by (simp add: n)
  have e3: "pack (2 * w) (evens (a # b # r)) = a + 2 ^ (2 * w) * pack (2 * w) (evens r)"
    by simp
  show ?case
    by (simp only: e1 e2 e3 sp lo IH)
qed

lemma pack_drop: "f < 2 ^ w \<Longrightarrow> drop_bit w (pack w (f # fs)) = pack w fs"
  by (simp add: drop_bit_eq_div)

lemma evens_Cons: "evens (b # r) = b # evens (tl r)"
  by (cases r) simp_all

lemma pack_evens_odds:
  "pack w fs = pack (2 * w) (evens fs) + 2 ^ w * pack (2 * w) (evens (tl fs))"
proof (induction fs rule: evens.induct)
  case 1 then show ?case by simp
next
  case (2 a) then show ?case by simp
next
  case (3 a b r)
  define E where "E = pack (2 * w) (evens r)"
  define Od where "Od = pack (2 * w) (evens (tl r))"
  define q :: nat where "q = 2 ^ w"
  have p: "(2::nat) ^ (2 * w) = q * q" unfolding q_def by (metis mult_2 power_add)
  have IH: "pack w r = E + q * Od" using 3 by (simp only: E_def Od_def q_def)
  have "pack w (a # b # r) = a + q * (b + q * (E + q * Od))"
    by (simp only: pack.simps IH q_def)
  also have "\<dots> = (a + q * q * E) + q * (b + q * q * Od)"
    by (simp add: distrib_left mult.assoc)
  also have "\<dots> = pack (2 * w) (evens (a # b # r))
        + 2 ^ w * pack (2 * w) (evens (tl (a # b # r)))"
    by (simp only: evens.simps list.sel evens_Cons[of b r] pack.simps p E_def Od_def q_def)
  finally show ?case .
qed

lemma pack_add:
  "length fs = length gs \<Longrightarrow> pack w fs + pack w gs = pack w (map2 (+) fs gs)"
proof (induction fs gs rule: list_induct2)
  case Nil then show ?case by simp
next
  case (Cons f fs g gs)
  have "pack w (map2 (+) (f # fs) (g # gs)) = (f + g) + 2 ^ w * (pack w fs + pack w gs)"
    by (simp only: Cons.IH) simp
  also have "\<dots> = pack w (f # fs) + pack w (g # gs)"
    by (simp add: distrib_left)
  finally show ?case by simp
qed

lemma pack_snoc0: "pack w (fs @ [0]) = pack w fs"
  by (induction fs) simp_all

lemma length_evens: "length (evens fs) = (length fs + 1) div 2"
  by (induction fs rule: evens.induct) simp_all

lemma length_pairsum: "length (pairsum fs) = (length fs + 1) div 2"
  by (induction fs rule: pairsum.induct) simp_all

lemma sum_list_pairsum: "sum_list (pairsum fs) = sum_list fs"
  by (induction fs rule: pairsum.induct) simp_all

lemma pairsum_bound: "\<forall>f\<in>set fs. f \<le> m \<Longrightarrow> \<forall>f\<in>set (pairsum fs). f \<le> 2 * m"
  by (induction fs rule: pairsum.induct) (auto intro: add_mono)

lemma pairsum_evens:
  "even (length fs) \<Longrightarrow> pairsum fs = map2 (+) (evens fs) (evens (tl fs))"
  by (induction fs rule: pairsum.induct) (simp_all add: evens_Cons)

lemma pairsum_shift: "evens (map2 (+) fs (tl fs @ [0])) = pairsum fs"
proof (induction fs rule: pairsum.induct)
  case 1 then show ?case by simp
next
  case (2 a) then show ?case by simp
next
  case (3 a b r)
  then show ?case by (cases r) simp_all
qed

lemma set_evens: "set (evens fs) \<subseteq> set fs"
  by (induction fs rule: evens.induct) auto

text \<open>One stage with both halves masked.\<close>

lemma stage_masked:
  assumes b: "\<forall>f\<in>set fs. f < 2 ^ w" and e: "even (length fs)" and n: "length fs \<le> 2 * n"
  shows "(pack w fs AND pack (2 * w) (replicate n (mask w)))
          + (drop_bit w (pack w fs) AND pack (2 * w) (replicate n (mask w)))
        = pack (2 * w) (pairsum fs)"
proof (cases fs)
  case Nil then show ?thesis by simp
next
  case (Cons f fs')
  have 1: "pack w fs AND pack (2 * w) (replicate n (mask w)) = pack (2 * w) (evens fs)"
    using b n by (intro pack_and_mask) (simp_all add: length_evens)
  have 2: "drop_bit w (pack w fs) = pack w (tl fs)"
    using b Cons by (simp add: pack_drop del: pack.simps)
  have 3: "pack w (tl fs) AND pack (2 * w) (replicate n (mask w)) = pack (2 * w) (evens (tl fs))"
    using b n Cons by (intro pack_and_mask) (auto simp add: length_evens)
  have 4: "length (evens fs) = length (evens (tl fs))"
    using e Cons by (auto simp: length_evens)
  show ?thesis
    by (simp only: 1 2 3 pack_add[OF 4] pairsum_evens[OF e])
qed

text \<open>The first stage of the source subtracts the odd bits instead.\<close>

lemma stage_minus:
  assumes b: "\<forall>f\<in>set fs. f < 2 ^ 1" and e: "even (length fs)" and n: "length fs \<le> 2 * n"
  shows "pack 1 fs - (drop_bit 1 (pack 1 fs) AND pack 2 (replicate n (mask 1)))
        = pack 2 (pairsum fs)"
proof (cases fs)
  case Nil then show ?thesis by simp
next
  case (Cons f fs')
  have 2: "drop_bit 1 (pack 1 fs) = pack 1 (tl fs)"
    using b Cons by (simp add: pack_drop del: pack.simps)
  have 3: "pack 1 (tl fs) AND pack (2 * 1) (replicate n (mask 1)) = pack (2 * 1) (evens (tl fs))"
    using b n Cons by (intro pack_and_mask) (auto simp add: length_evens)
  have 4: "length (evens fs) = length (evens (tl fs))"
    using e Cons by (auto simp: length_evens)
  have 5: "pack 1 fs = pack (2 * 1) (evens fs) + 2 ^ 1 * pack (2 * 1) (evens (tl fs))"
    by (rule pack_evens_odds)
  have "pack 1 fs - pack 2 (evens (tl fs)) = pack 2 (evens fs) + pack 2 (evens (tl fs))"
    using 5 by simp
  also have "\<dots> = pack 2 (pairsum fs)"
    by (simp only: pack_add[OF 4] pairsum_evens[OF e])
  finally show ?thesis using 2 3 by simp
qed

text \<open>The third stage adds first and masks once.\<close>

lemma stage_add_then_mask:
  assumes b: "\<forall>f\<in>set fs. 2 * f < 2 ^ w" and n: "length fs \<le> 2 * n" and ne: "fs \<noteq> []"
  shows "(pack w fs + drop_bit w (pack w fs)) AND pack (2 * w) (replicate n (mask w))
        = pack (2 * w) (pairsum fs)"
    and "pack w fs + drop_bit w (pack w fs) < 2 ^ (w * length fs)"
proof -
  obtain f fs' where Cons: "fs = f # fs'" using ne by (cases fs) auto
  have b': "\<forall>f\<in>set fs. f < 2 ^ w" using b by auto
  have 2: "drop_bit w (pack w fs) = pack w (tl fs @ [0])"
    using b' Cons by (simp add: pack_drop pack_snoc0 del: pack.simps)
  have 4: "length fs = length (tl fs @ [0])" using Cons by simp
  have bs: "\<forall>g\<in>set (map2 (+) fs (tl fs @ [0])). g < 2 ^ w"
  proof
    fix g assume "g \<in> set (map2 (+) fs (tl fs @ [0]))"
    then obtain p q where z: "(p, q) \<in> set (zip fs (tl fs @ [0]))" and g: "g = p + q"
      by auto
    have p: "p \<in> set fs" and q: "q \<in> set (tl fs @ [0])"
      using z by (rule set_zip_leftD, rule set_zip_rightD)
    have "2 * p < 2 ^ w" using b p by simp
    moreover have "2 * q < 2 ^ w"
    proof (cases "q = 0")
      case True then show ?thesis by simp
    next
      case False
      with q have "q \<in> set fs" using Cons by auto
      then show ?thesis using b by simp
    qed
    ultimately show "g < 2 ^ w" unfolding g by linarith
  qed
  have "length (evens (map2 (+) fs (tl fs @ [0]))) \<le> n"
    using n Cons by (simp add: length_evens)
  then have "pack w (map2 (+) fs (tl fs @ [0])) AND pack (2 * w) (replicate n (mask w))
      = pack (2 * w) (evens (map2 (+) fs (tl fs @ [0])))"
    using bs by (intro pack_and_mask)
  then show "(pack w fs + drop_bit w (pack w fs)) AND pack (2 * w) (replicate n (mask w))
        = pack (2 * w) (pairsum fs)"
    by (simp only: 2 pack_add[OF 4] pairsum_shift)
  have eq: "pack w fs + drop_bit w (pack w fs) = pack w (map2 (+) fs (tl fs @ [0]))"
    by (simp only: 2 pack_add[OF 4])
  have len: "length (map2 (+) fs (tl fs @ [0])) = length fs"
    using Cons by simp
  have "pack w (map2 (+) fs (tl fs @ [0])) < 2 ^ (w * length (map2 (+) fs (tl fs @ [0])))"
    using bs by (rule pack_lt)
  then show "pack w fs + drop_bit w (pack w fs) < 2 ^ (w * length fs)"
    by (simp only: eq len)
qed

lemma replicate_unfold:
  "replicate 16 m = [m, m, m, m, m, m, m, m, m, m, m, m, m, m, m, m]"
  "replicate 8 m = [m, m, m, m, m, m, m, m]"
  "replicate 4 m = [m, m, m, m]"
  by (simp_all add: eval_nat_numeral)

lemma mask_numerals:
  "pack 2 (replicate 16 (mask 1)) = 0x55555555"
  "pack (2 * 2) (replicate 8 (mask 2)) = 0x33333333"
  "pack (2 * 4) (replicate 4 (mask 4)) = 0x0f0f0f0f"
  by (simp_all add: replicate_unfold mask_eq_exp_minus_1)

lemma unat_bits: "unat (x :: 32 word) = pack 1 (map (\<lambda>j. of_bool (bit x j)) [0..<32])"
proof -
  have g: "take_bit n (k::nat) = pack 1 (map (\<lambda>j. of_bool (bit k j)) [0..<n])" for n k
  proof (induction n arbitrary: k)
    case 0 then show ?case by simp
  next
    case (Suc n)
    have "[0..<Suc n] = 0 # map Suc [0..<n]"
      by (simp add: upt_conv_Cons map_Suc_upt del: upt_Suc)
    then show ?case
      using Suc[of "k div 2"]
      by (simp add: take_bit_Suc bit_Suc comp_def bit_0 mod_2_eq_odd del: upt_Suc)
  qed
  have "unat x < 2 ^ 32" using unsigned_less[of x] by simp
  then have "unat x = take_bit 32 (unat x)"
    by (simp add: take_bit_nat_eq_self)
  also have "\<dots> = pack 1 (map (\<lambda>j. of_bool (bit (unat x) j)) [0..<32])" by (rule g)
  also have "\<dots> = pack 1 (map (\<lambda>j. of_bool (bit x j)) [0..<32])"
    by (simp add: bit_unsigned_iff del: upt_Suc)
  finally show ?thesis .
qed

lemma sum_of_bool_filter: "sum_list (map (\<lambda>j. of_bool (P j)) xs) = length (filter P xs)"
  by (induction xs) simp_all

lemma tail_stages:
  fixes B0 B1 B2 B3 :: nat
  assumes b: "B0 \<le> 8" "B1 \<le> 8" "B2 \<le> 8" "B3 \<le> 8"
    and n4: "n4 = pack 8 [B0, B1, B2, B3] + drop_bit 8 (pack 8 [B0, B1, B2, B3])"
    and n5: "n5 = n4 + drop_bit 16 n4"
  shows "n4 < 2 ^ 32" "n5 < 2 ^ 32" "n5 AND 0x3f = B0 + B1 + B2 + B3"
proof -
  have "B0 < 2 ^ 8" using b(1) by simp
  then have d3: "drop_bit 8 (pack 8 [B0, B1, B2, B3]) = pack 8 [B1, B2, B3]"
    by (rule pack_drop)
  define A where "A = (B0 + B1) + 256 * (B1 + B2)"
  define C where "C = (B2 + B3) + 256 * B3"
  have n4': "n4 = A + 2 ^ 16 * C"
    unfolding n4 d3 A_def C_def by simp
  have A: "A < 2 ^ 16" using b by (simp add: A_def)
  have C: "C \<le> 16 + 256 * 8" using b by (simp add: C_def)
  have d4: "drop_bit 16 n4 = C"
    unfolding n4' using A by (simp add: drop_bit_eq_div)
  define S where "S = B0 + B1 + B2 + B3"
  define R where "R = 4 * (B1 + B2 + B3) + 1024 * (B2 + B3) + 262144 * B3"
  have n5': "n5 = S + 64 * R"
    unfolding n5 d4 unfolding n4' A_def C_def S_def R_def by simp
  have S: "S < 64" using b by (simp add: S_def)
  have R: "R \<le> 4 * 24 + 1024 * 16 + 262144 * 8" using b by (simp add: R_def)
  show "n4 < 2 ^ 32" using A C unfolding n4' by simp
  show "n5 < 2 ^ 32" using S R unfolding n5' by simp
  have "n5 AND 0x3f = n5 mod 64"
    using take_bit_eq_mask[of 6 n5] by (simp add: take_bit_eq_mod mask_eq_exp_minus_1)
  also have "\<dots> = S"
    unfolding n5' using S by simp
  finally show "n5 AND 0x3f = B0 + B1 + B2 + B3" by (simp only: S_def)
qed

lemma list4:
  assumes "length (xs :: nat list) = 4"
  obtains a b c d where "xs = [a, b, c, d]"
proof -
  from assms obtain a xs1 where 1: "xs = a # xs1" "length xs1 = 3" by (cases xs) auto
  from 1(2) obtain b xs2 where 2: "xs1 = b # xs2" "length xs2 = 2" by (cases xs1) auto
  from 2(2) obtain c xs3 where 3: "xs2 = c # xs3" "length xs3 = 1" by (cases xs2) auto
  from 3(2) obtain d where 4: "xs3 = [d]" by (cases xs3) auto
  show thesis using that 1 2 3 4 by simp
qed

theorem popcount_correct: "unat (popcount x) = length (filter (bit x) [0..<32])"
proof -
  define bits :: "nat list" where "bits = map (\<lambda>j. of_bool (bit x j)) [0..<32]"
  define p1 where "p1 = pairsum bits"
  define p2 where "p2 = pairsum p1"
  define p3 where "p3 = pairsum p2"
  have l0: "length bits = 32" by (simp add: bits_def del: upt_Suc)
  have l1: "length p1 = 16" by (simp add: p1_def length_pairsum l0)
  have l2: "length p2 = 8" by (simp add: p2_def length_pairsum l1)
  have l3: "length p3 = 4" by (simp add: p3_def length_pairsum l2)
  have b0: "\<forall>f\<in>set bits. f \<le> 1" by (auto simp: bits_def)
  have b1: "\<forall>f\<in>set p1. f \<le> 2" using pairsum_bound[OF b0] by (simp add: p1_def)
  have b2: "\<forall>f\<in>set p2. f \<le> 4" using pairsum_bound[OF b1] by (simp add: p2_def)
  have b3: "\<forall>f\<in>set p3. f \<le> 8" using pairsum_bound[OF b2] by (simp add: p3_def)
  define x1 where "x1 = x - (drop_bit 1 x AND 0x55555555)"
  define x2 where "x2 = (x1 AND 0x33333333) + (drop_bit 2 x1 AND 0x33333333)"
  define x3 where "x3 = (x2 + drop_bit 4 x2) AND 0x0f0f0f0f"
  define x4 where "x4 = x3 + drop_bit 8 x3"
  define x5 where "x5 = x4 + drop_bit 16 x4"
  have pc: "popcount x = x5 AND 0x3f"
    by (simp add: popcount_def Let_def x1_def x2_def x3_def x4_def x5_def)
  have u0: "unat x = pack 1 bits" unfolding bits_def by (rule unat_bits)
  have s1: "pack 1 bits - (drop_bit 1 (pack 1 bits) AND 0x55555555) = pack 2 p1"
  proof -
    have "\<forall>f\<in>set bits. f < 2 ^ 1" using b0 by auto
    moreover have "even (length bits)" "length bits \<le> 2 * 16" by (simp_all add: l0)
    ultimately show ?thesis
      unfolding p1_def mask_numerals(1)[symmetric] by (rule stage_minus)
  qed
  have "unat (drop_bit 1 x) = drop_bit 1 (unat x)"
    by (rule unat_drop_bit_eq)
  then have "unat (drop_bit 1 x) \<le> unat x"
    by (simp only: drop_bit_eq_div) simp
  then have "drop_bit 1 x \<le> x"
    by (simp add: word_le_nat_alt)
  then have "drop_bit 1 x AND 0x55555555 \<le> x"
    by (rule order_trans[OF word_and_le2])
  then have "unat x1 = unat x - unat (drop_bit 1 x AND 0x55555555)"
    unfolding x1_def by (rule unat_sub)
  also have "unat (drop_bit 1 x AND 0x55555555) = drop_bit 1 (unat x) AND 0x55555555"
    by (simp add: unsigned_and_eq unat_drop_bit_eq)
  finally have u1: "unat x1 = pack 2 p1"
    by (simp only: u0 s1)
  have s2: "(pack 2 p1 AND 0x33333333) + (drop_bit 2 (pack 2 p1) AND 0x33333333) = pack 4 p2"
  proof -
    have "\<forall>f\<in>set p1. f < 2 ^ 2" using b1 by auto
    moreover have "even (length p1)" "length p1 \<le> 2 * 8" by (simp_all add: l1)
    ultimately have "(pack 2 p1 AND pack (2 * 2) (replicate 8 (mask 2)))
          + (drop_bit 2 (pack 2 p1) AND pack (2 * 2) (replicate 8 (mask 2)))
        = pack (2 * 2) (pairsum p1)" by (rule stage_masked)
    then show ?thesis unfolding mask_numerals p2_def by simp
  qed
  have lt2: "pack 4 p2 < 2 ^ 32"
  proof -
    have "\<forall>f\<in>set p2. f < 2 ^ 4" using b2 by auto
    then have "pack 4 p2 < 2 ^ (4 * length p2)" by (rule pack_lt)
    then show ?thesis by (simp add: l2)
  qed
  have a2: "unat (x1 AND 0x33333333) + unat (drop_bit 2 x1 AND 0x33333333) = pack 4 p2"
    using s2 by (simp add: unsigned_and_eq unat_drop_bit_eq u1)
  then have "unat (x1 AND 0x33333333) + unat (drop_bit 2 x1 AND 0x33333333) < 2 ^ LENGTH(32)"
    using lt2 by simp
  then have "unat x2 = unat (x1 AND 0x33333333) + unat (drop_bit 2 x1 AND 0x33333333)"
    unfolding x2_def by (simp only: unat_add_lem)
  then have u2: "unat x2 = pack 4 p2"
    by (simp only: a2)
  have f3: "\<forall>f\<in>set p2. 2 * f < 2 ^ 4" using b2 by auto
  have n3: "length p2 \<le> 2 * 4" "p2 \<noteq> []" using l2 by auto
  have s3: "(pack 4 p2 + drop_bit 4 (pack 4 p2)) AND 0x0f0f0f0f = pack 8 p3"
    using stage_add_then_mask(1)[OF f3 n3] unfolding mask_numerals p3_def by simp
  have lt3: "pack 4 p2 + drop_bit 4 (pack 4 p2) < 2 ^ LENGTH(32)"
    using stage_add_then_mask(2)[OF f3 n3] by (simp add: l2)
  have "unat x2 + unat (drop_bit 4 x2) < 2 ^ LENGTH(32)"
    using lt3 by (simp only: unat_drop_bit_eq u2)
  then have "unat (x2 + drop_bit 4 x2) = unat x2 + unat (drop_bit 4 x2)"
    by (simp only: unat_add_lem)
  then have u3: "unat x3 = pack 8 p3"
    unfolding x3_def using s3 by (simp add: unsigned_and_eq unat_drop_bit_eq u2)
  obtain B0 B1 B2 B3 where p3: "p3 = [B0, B1, B2, B3]"
    using l3 by (rule list4)
  have B: "B0 \<le> 8" "B1 \<le> 8" "B2 \<le> 8" "B3 \<le> 8"
    using b3 by (simp_all add: p3)
  define n4 where "n4 = pack 8 [B0, B1, B2, B3] + drop_bit 8 (pack 8 [B0, B1, B2, B3])"
  define n5 where "n5 = n4 + drop_bit 16 n4"
  note t = tail_stages[OF B n4_def n5_def]
  have e4: "unat x3 + unat (drop_bit 8 x3) = n4"
    by (simp only: unat_drop_bit_eq u3 p3 n4_def)
  have "unat x3 + unat (drop_bit 8 x3) < 2 ^ LENGTH(32)"
    unfolding e4 using t(1) by simp
  then have "unat (x3 + drop_bit 8 x3) = unat x3 + unat (drop_bit 8 x3)"
    by (simp only: unat_add_lem)
  then have u4: "unat x4 = n4"
    unfolding x4_def e4 .
  have e5: "unat x4 + unat (drop_bit 16 x4) = n5"
    by (simp only: unat_drop_bit_eq u4 n5_def)
  have "unat x4 + unat (drop_bit 16 x4) < 2 ^ LENGTH(32)"
    unfolding e5 using t(2) by simp
  then have "unat (x4 + drop_bit 16 x4) = unat x4 + unat (drop_bit 16 x4)"
    by (simp only: unat_add_lem)
  then have u5: "unat x5 = n5"
    unfolding x5_def e5 .
  have "unat (popcount x) = n5 AND 0x3f"
    unfolding pc by (simp add: unsigned_and_eq u5)
  also have "\<dots> = sum_list p3"
    by (simp add: t(3) p3)
  also have "\<dots> = sum_list bits"
    by (simp only: p3_def p2_def p1_def sum_list_pairsum)
  also have "\<dots> = length (filter (bit x) [0..<32])"
    unfolding bits_def by (rule sum_of_bool_filter)
  finally show ?thesis .
qed

section \<open>Bitmaps as sorted lists of branch indices\<close>

lemma sliceAt_less: "sliceAt h s < 32"
proof -
  have "maskHash h s \<le> 0x1f" unfolding maskHash_def by (rule word_and_le1)
  then have "unat (maskHash h s) \<le> unat (0x1f :: 32 word)" by (simp only: word_le_nat_alt)
  then show ?thesis by (simp add: sliceAt_def)
qed

lemma bitpos_slice: "bitpos h s = push_bit (sliceAt h s) 1"
  by (simp add: bitpos_def sliceAt_def Let_def)

lemma bit_bitpos: "bit (bitpos h s) j \<longleftrightarrow> j = sliceAt h s"
  using sliceAt_less[of h s] by (auto simp: bitpos_slice bit_exp_iff possible_bit_word)

lemma bitpos_eq_iff: "bitpos h s = bitpos h' s' \<longleftrightarrow> sliceAt h s = sliceAt h' s'"
proof
  assume "bitpos h s = bitpos h' s'"
  then have "bit (bitpos h s) (sliceAt h s) = bit (bitpos h' s') (sliceAt h s)" by simp
  then show "sliceAt h s = sliceAt h' s'" by (simp add: bit_bitpos)
qed (simp add: bitpos_slice)

lemma and_bitpos: "bm AND bitpos h s \<noteq> 0 \<longleftrightarrow> bit bm (sliceAt h s)"
proof -
  have "bm AND bitpos h s = 0" if "\<not> bit bm (sliceAt h s)"
    by (rule bit_word_eqI) (use that in \<open>auto simp: bit_and_iff bit_bitpos\<close>)
  moreover have "bm AND bitpos h s \<noteq> 0" if "bit bm (sliceAt h s)"
  proof
    assume "bm AND bitpos h s = 0"
    then have "\<not> bit (bm AND bitpos h s) (sliceAt h s)" by simp
    then show False using that by (simp add: bit_and_iff bit_bitpos)
  qed
  ultimately show ?thesis by blast
qed

lemma bitpos_minus_1: "bitpos h s - 1 = mask (sliceAt h s)"
  by (simp add: bitpos_slice mask_eq_exp_minus_1 push_bit_eq_mult)

lemma idx_rank: "unat (popcount (bm AND (bitpos h s - 1))) = rank bm (sliceAt h s)"
proof -
  have "filter (bit (bm AND mask i)) [0..<32] = filter (bit bm) [0..<i]" if "i \<le> 32" for i
  proof -
    have "[0..<i + (32 - i)] = [0..<i] @ [i..<i + (32 - i)]"
      by (rule upt_add_eq_append) simp
    then have "[0..<32] = [0..<i] @ [i..<32]" using that by simp
    moreover have "filter (bit (bm AND mask i)) [0..<i] = filter (bit bm) [0..<i]"
      using that by (intro filter_cong) (auto simp: bit_and_iff bit_mask_iff)
    moreover have "filter (bit (bm AND mask i)) [i..<32] = []"
      by (auto simp: filter_empty_conv bit_and_iff bit_mask_iff)
    ultimately show ?thesis by simp
  qed
  from this[of "sliceAt h s"] sliceAt_less[of h s] show ?thesis
    by (simp add: popcount_correct bitpos_minus_1 rank_def)
qed

lemma bit_less_32: "bit (bm :: 32 word) i \<Longrightarrow> i < 32"
  using bit_imp_le_length[of bm i] by simp

lemma upt_split: "i \<le> n \<Longrightarrow> [0..<n] = [0..<i] @ [i..<n]"
  using upt_add_eq_append[of 0 i "n - i"] by simp

lemma upt_split3: "i < n \<Longrightarrow> [0..<n] = [0..<i] @ i # [Suc i..<n]"
  using upt_split[of i n] upt_conv_Cons[of i n] by simp

lemma bitsOf_split:
  "i < 32 \<Longrightarrow> bitsOf bm = filter (bit bm) [0..<i] @ (if bit bm i then [i] else [])
      @ filter (bit bm) [Suc i..<32]"
  by (simp add: bitsOf_def upt_split3[of i 32] del: upt_Suc)

lemma length_low [simp]: "length (filter (bit bm) [0..<i]) = rank bm i"
  by (simp add: rank_def)

lemma rank_le: "i < 32 \<Longrightarrow> rank bm i \<le> length (bitsOf bm)"
  by (simp add: bitsOf_split[of i])

lemma rank_set:
  assumes "bit bm i"
  shows "rank bm i < length (bitsOf bm)" "bitsOf bm ! rank bm i = i"
    "take (rank bm i) (bitsOf bm) = filter (bit bm) [0..<i]"
    "drop (Suc (rank bm i)) (bitsOf bm) = filter (bit bm) [Suc i..<32]"
  using assms bit_less_32[OF assms] by (simp_all add: bitsOf_split[of i] nth_append)

lemma rank_unset:
  assumes "\<not> bit bm i" "i < 32"
  shows "take (rank bm i) (bitsOf bm) = filter (bit bm) [0..<i]"
    "drop (rank bm i) (bitsOf bm) = filter (bit bm) [Suc i..<32]"
  using assms by (simp_all add: bitsOf_split[of i])

lemma bitsOf_set: "set (bitsOf bm) = {i. bit bm i}"
  by (auto simp: bitsOf_def dest: bit_less_32)

lemma bitsOf_distinct: "distinct (bitsOf bm)"
  by (simp add: bitsOf_def)

lemma bitsOf_nth:
  assumes "j < length (bitsOf bm)"
  shows "bit bm (bitsOf bm ! j)" "rank bm (bitsOf bm ! j) = j"
proof -
  let ?i = "bitsOf bm ! j"
  have "?i \<in> set (bitsOf bm)" using assms by simp
  then show b: "bit bm ?i" by (simp add: bitsOf_set)
  have "bitsOf bm ! rank bm ?i = ?i" "rank bm ?i < length (bitsOf bm)"
    using rank_set[OF b] by simp_all
  then show "rank bm ?i = j"
    using assms bitsOf_distinct[of bm] by (simp add: nth_eq_iff_index_eq)
qed

lemma rank_inj:
  assumes "bit bm i" "bit bm i'" "rank bm i = rank bm i'"
  shows "i = i'"
  by (metis rank_set(2) assms)

lemma bit_or_bitpos: "bit (bm OR bitpos h s) j \<longleftrightarrow> bit bm j \<or> j = sliceAt h s"
  by (simp add: bit_or_iff bit_bitpos)

lemma bit_andnot_bitpos: "bit (bm AND NOT (bitpos h s)) j \<longleftrightarrow> bit bm j \<and> j \<noteq> sliceAt h s"
  by (auto simp: bit_and_iff bit_not_iff bit_bitpos dest: bit_less_32)

lemma bitsOf_or:
  assumes "\<not> bit bm (sliceAt h s)"
  shows "bitsOf (bm OR bitpos h s)
    = take (rank bm (sliceAt h s)) (bitsOf bm) @ [sliceAt h s] @ drop (rank bm (sliceAt h s)) (bitsOf bm)"
proof -
  let ?i = "sliceAt h s"
  have i: "?i < 32" by (rule sliceAt_less)
  have 1: "filter (bit (bm OR bitpos h s)) [0..<?i] = filter (bit bm) [0..<?i]"
    by (intro filter_cong) (auto simp: bit_or_bitpos)
  have 2: "filter (bit (bm OR bitpos h s)) [Suc ?i..<32] = filter (bit bm) [Suc ?i..<32]"
    by (intro filter_cong) (auto simp: bit_or_bitpos)
  show ?thesis
    unfolding rank_unset[OF assms i]
    by (simp add: bitsOf_split[OF i, of "bm OR bitpos h s"] 1 2 bit_or_bitpos del: length_low)
qed

lemma bitsOf_andnot:
  assumes "bit bm (sliceAt h s)"
  shows "bitsOf (bm AND NOT (bitpos h s))
    = take (rank bm (sliceAt h s)) (bitsOf bm) @ drop (Suc (rank bm (sliceAt h s))) (bitsOf bm)"
proof -
  let ?i = "sliceAt h s"
  have i: "?i < 32" by (rule sliceAt_less)
  have 1: "filter (bit (bm AND NOT (bitpos h s))) [0..<?i] = filter (bit bm) [0..<?i]"
    by (intro filter_cong) (auto simp: bit_andnot_bitpos)
  have 2: "filter (bit (bm AND NOT (bitpos h s))) [Suc ?i..<32] = filter (bit bm) [Suc ?i..<32]"
    by (intro filter_cong) (auto simp: bit_andnot_bitpos)
  show ?thesis
    unfolding rank_set(3,4)[OF assms]
    by (simp add: bitsOf_split[OF i, of "bm AND NOT (bitpos h s)"] 1 2 bit_andnot_bitpos del: length_low)
qed

lemma rank_or:
  "rank (bm OR bitpos h s) j = rank bm j + (if sliceAt h s < j \<and> \<not> bit bm (sliceAt h s) then 1 else 0)"
proof -
  let ?i = "sliceAt h s"
  show ?thesis
  proof (cases "?i < j")
    case True
    have "[0..<j] = [0..<?i] @ ?i # [Suc ?i..<j]"
      using True by (rule upt_split3)
    moreover have "filter (bit (bm OR bitpos h s)) [0..<?i] = filter (bit bm) [0..<?i]"
      by (intro filter_cong) (auto simp: bit_or_bitpos)
    moreover have "filter (bit (bm OR bitpos h s)) [Suc ?i..<j] = filter (bit bm) [Suc ?i..<j]"
      by (intro filter_cong) (auto simp: bit_or_bitpos)
    ultimately show ?thesis using True
      unfolding rank_def by (simp add: bit_or_bitpos del: upt_Suc length_low)
  next
    case False
    have "filter (bit (bm OR bitpos h s)) [0..<j] = filter (bit bm) [0..<j]"
      using False by (intro filter_cong) (auto simp: bit_or_bitpos)
    then show ?thesis using False unfolding rank_def by simp
  qed
qed

lemma rank_andnot:
  "rank (bm AND NOT (bitpos h s)) j = rank bm j - (if sliceAt h s < j \<and> bit bm (sliceAt h s) then 1 else 0)"
proof -
  let ?i = "sliceAt h s"
  show ?thesis
  proof (cases "?i < j")
    case True
    have "[0..<j] = [0..<?i] @ ?i # [Suc ?i..<j]"
      using True by (rule upt_split3)
    moreover have "filter (bit (bm AND NOT (bitpos h s))) [0..<?i] = filter (bit bm) [0..<?i]"
      by (intro filter_cong) (auto simp: bit_andnot_bitpos)
    moreover have "filter (bit (bm AND NOT (bitpos h s))) [Suc ?i..<j] = filter (bit bm) [Suc ?i..<j]"
      by (intro filter_cong) (auto simp: bit_andnot_bitpos)
    ultimately show ?thesis using True
      unfolding rank_def by (simp add: bit_andnot_bitpos del: upt_Suc length_low)
  next
    case False
    have "filter (bit (bm AND NOT (bitpos h s))) [0..<j] = filter (bit bm) [0..<j]"
      using False by (intro filter_cong) (auto simp: bit_andnot_bitpos)
    then show ?thesis using False unfolding rank_def by simp
  qed
qed

lemma rank_mono: "i \<le> j \<Longrightarrow> rank bm i \<le> rank bm j"
  unfolding rank_def by (simp add: upt_split[of i j] del: length_low)

lemma rank_strict: "bit bm i \<Longrightarrow> i < j \<Longrightarrow> rank bm i < rank bm j"
  unfolding rank_def by (simp add: upt_split3[of i j] del: length_low upt_Suc)

section \<open>Hash slices and \<open>mergeLeaves\<close>\<close>

lemma onPath_Nil [simp]: "onPath [] h"
  by (simp add: onPath_def)

lemma onPath_snoc: "onPath (p @ [i]) h \<longleftrightarrow> onPath p h \<and> sliceAt h (5 * length p) = i"
  by (auto simp: onPath_def nth_append less_Suc_eq)

lemma bit_maskHash: "s < 32 \<Longrightarrow> bit (maskHash h s) m \<longleftrightarrow> m < 5 \<and> bit h (s + m)"
proof -
  assume s: "s < 32"
  have "(0x1f :: 32 word) = mask 5" by (simp add: mask_eq_exp_minus_1)
  then have e: "maskHash h s = drop_bit s h AND mask 5"
    using s by (simp only: maskHash_def mod_less)
  show ?thesis
    unfolding e by (auto simp: bit_and_iff bit_drop_bit_eq bit_mask_iff)
qed

lemma sliceAt_eq_bits:
  assumes "sliceAt h1 s = sliceAt h2 s" "s < 32" "m < 5"
  shows "bit h1 (s + m) = bit h2 (s + m)"
proof -
  have "maskHash h1 s = maskHash h2 s"
    using assms(1) by (simp add: sliceAt_def word_unat_eq_iff)
  then have "bit (maskHash h1 s) m = bit (maskHash h2 s) m" by simp
  then show ?thesis using assms(2,3) by (simp add: bit_maskHash)
qed

lemma onPath_full:
  assumes "onPath p h1" "onPath p h2" "7 \<le> length p"
  shows "h1 = h2"
proof (rule bit_word_eqI)
  fix n assume "n < LENGTH(32)"
  then have n: "n < 32" by simp
  then have j: "n div 5 < length p" using assms(3) by simp
  have "sliceAt h1 (5 * (n div 5)) = sliceAt h2 (5 * (n div 5))"
    using assms(1,2) j by (simp add: onPath_def)
  moreover have "5 * (n div 5) < 32" using n by simp
  moreover have "n mod 5 < 5" by simp
  ultimately have "bit h1 (5 * (n div 5) + n mod 5) = bit h2 (5 * (n div 5) + n mod 5)"
    by (rule sliceAt_eq_bits)
  then show "bit h1 n = bit h2 n" by simp
qed

lemma slices_differ:
  assumes "h1 \<noteq> h2"
  shows "\<exists>k. sliceAt h1 (s + 5 * k) \<noteq> sliceAt h2 (s + 5 * k)"
proof -
  from assms obtain b where b: "b < 32" "bit h1 b \<noteq> bit h2 b"
    by (auto simp: bit_eq_iff dest: bit_less_32)
  define d where "d = (b + 32 - s mod 32) mod 32"
  define k where "k = 13 * d"
  define q r where "q = s div 32" and "r = s mod 32"
  have s: "s = 32 * q + r" and r: "r < 32" by (simp_all add: q_def r_def)
  have "s + (b + 32 - r) = b + 32 * (1 + q)"
    using r unfolding s by simp
  then have "(s + (b + 32 - r)) mod 32 = (b + 32 * (1 + q)) mod 32"
    by (simp only:)
  also have "\<dots> = b"
    using b(1) by (simp only: mod_mult_self2 mod_less)
  finally have "(s + (b + 32 - r)) mod 32 = b" .
  then have "(s + d) mod 32 = b"
    unfolding d_def r_def by (simp add: mod_simps)
  moreover have "s + 5 * k = (s + d) + 32 * (2 * d)"
    by (simp add: k_def)
  ultimately have m: "(s + 5 * k) mod 32 = b"
    by (simp only: mod_mult_self2)
  have "sliceAt h1 (s + 5 * k) \<noteq> sliceAt h2 (s + 5 * k)"
  proof
    assume "sliceAt h1 (s + 5 * k) = sliceAt h2 (s + 5 * k)"
    then have "maskHash h1 (s + 5 * k) = maskHash h2 (s + 5 * k)"
      by (simp add: sliceAt_def word_unat_eq_iff)
    then have "maskHash h1 b = maskHash h2 b"
      using b(1) by (simp add: maskHash_def m)
    then have "bit (maskHash h1 b) 0 = bit (maskHash h2 b) 0" by simp
    then show False using b by (simp add: bit_maskHash)
  qed
  then show ?thesis ..
qed

lemma bitpos_less: "bitpos h1 s < bitpos h2 s' \<longleftrightarrow> sliceAt h1 s < sliceAt h2 s'"
proof -
  have "unat (bitpos h s) = 2 ^ sliceAt h s" for h s
  proof -
    have lt: "(2::nat) ^ sliceAt h s < 2 ^ 32"
      using sliceAt_less[of h s] by (intro power_strict_increasing) simp_all
    have "unat (bitpos h s) = take_bit LENGTH(32) (push_bit (sliceAt h s) (unat (1::32 word)))"
      unfolding bitpos_slice by (rule unsigned_push_bit_eq)
    also have "\<dots> = 2 ^ sliceAt h s"
      using lt sliceAt_less[of h s] by (simp add: push_bit_eq_mult take_bit_nat_eq_self)
    finally show ?thesis .
  qed
  then show ?thesis by (simp add: word_less_nat_alt)
qed

lemma bitsOf_0 [simp]: "bitsOf 0 = []"
  by (simp add: bitsOf_def filter_empty_conv)

lemma rank_0 [simp]: "rank 0 j = 0"
  by (simp add: rank_def del: length_low)

lemma rank_bitpos: "rank (bitpos h s) j = (if sliceAt h s < j then 1 else 0)"
  using rank_or[of 0 h s j] by simp

lemma bitsOf_bitpos: "bitsOf (bitpos h s) = [sliceAt h s]"
  using bitsOf_or[of 0 h s] by simp

lemma bit_bitpos_or: "bit (bitpos h1 s OR bitpos h2 s) j \<longleftrightarrow> j = sliceAt h1 s \<or> j = sliceAt h2 s"
  by (simp add: bit_or_iff bit_bitpos)

lemma bitpos_nonzero [simp]: "bitpos h s \<noteq> 0" "bm OR bitpos h s \<noteq> 0"
proof -
  show "bitpos h s \<noteq> 0"
    using bit_bitpos[of h s "sliceAt h s"] by auto
  show "bm OR bitpos h s \<noteq> 0"
    using bit_or_bitpos[of bm h s "sliceAt h s"] by auto
qed

lemma bitsOf_two:
  assumes "sliceAt h1 s \<noteq> sliceAt h2 s"
  shows "bitsOf (bitpos h1 s OR bitpos h2 s)
    = (if sliceAt h1 s < sliceAt h2 s then [sliceAt h1 s, sliceAt h2 s] else [sliceAt h2 s, sliceAt h1 s])"
  using assms bitsOf_or[of "bitpos h1 s" h2 s]
  by (simp add: bit_bitpos rank_bitpos bitsOf_bitpos)

lemma lookupNode_Internal:
  "lookupNode (Internal bm cs) h s k =
    (if \<not> bit bm (sliceAt h s) then Inr None
     else if rank bm (sliceAt h s) < length cs then lookupNode (cs ! rank bm (sliceAt h s)) h (s + 5) k
     else Inl TypeError)"
  using and_bitpos[of bm h s] by (auto simp: lookupNode.simps(2) lookupInternalNode.simps Let_def idx_rank)

lemma mergeLeaves_unfold:
  "mergeLeaves s h1 es h2 key v =
    (if sliceAt h1 s = sliceAt h2 s then
       Option.bind (mergeLeaves (s + 5) h1 es h2 key v) (\<lambda>n. Some (Internal (bitpos h1 s) [n]))
     else Some (Internal (bitpos h1 s OR bitpos h2 s)
            (if sliceAt h1 s < sliceAt h2 s then [Leaf h1 es, Leaf h2 [(key, v)]]
             else [Leaf h2 [(key, v)], Leaf h1 es])))"
  by (subst mergeLeaves.simps)
     (simp add: bitpos_eq_iff bitpos_less createInternal_def createLeaf_def)

lemma merge_props:
  assumes "sliceAt h1 (s + 5 * k) \<noteq> sliceAt h2 (s + 5 * k)"
  shows "\<exists>n. mergeLeaves s h1 es h2 key v = Some n \<and> entryCount n = length es + 1 \<and>
    (\<forall>h' k'. lookupNode n h' s k' =
       Inr (if h' = h1 then lookupLeafNode h1 es h' k' else lookupLeafNode h2 [(key, v)] h' k'))"
  using assms
proof (induction k arbitrary: s)
  case 0
  then have d: "sliceAt h1 s \<noteq> sliceAt h2 s" by simp
  then have ne: "h1 \<noteq> h2" by auto
  show ?case
    using d ne
    by (subst mergeLeaves_unfold)
       (auto simp: lookupNode_Internal bit_bitpos_or rank_or rank_bitpos bit_bitpos lookupLeafNode_def)
next
  case (Suc k)
  show ?case
  proof (cases "sliceAt h1 s = sliceAt h2 s")
    case False
    then have ne: "h1 \<noteq> h2" by auto
    show ?thesis
      using False ne
      by (subst mergeLeaves_unfold)
         (auto simp: lookupNode_Internal bit_bitpos_or rank_or rank_bitpos bit_bitpos lookupLeafNode_def)
  next
    case True
    have "sliceAt h1 (s + 5 + 5 * k) \<noteq> sliceAt h2 (s + 5 + 5 * k)"
      using Suc.prems by (simp add: add.assoc)
    from Suc.IH[OF this] obtain n where n: "mergeLeaves (s + 5) h1 es h2 key v = Some n"
      "entryCount n = length es + 1"
      "\<And>h' k'. lookupNode n h' (s + 5) k' =
         Inr (if h' = h1 then lookupLeafNode h1 es h' k' else lookupLeafNode h2 [(key, v)] h' k')"
      by blast
    have ne: "h1 \<noteq> h2" using Suc.prems by auto
    have l: "lookupNode (Internal (bitpos h1 s) [n]) h' s k' =
        Inr (if h' = h1 then lookupLeafNode h1 es h' k' else lookupLeafNode h2 [(key, v)] h' k')" for h' k'
    proof (cases "sliceAt h' s = sliceAt h1 s")
      case True
      then show ?thesis by (simp add: lookupNode_Internal bit_bitpos rank_bitpos n(3))
    next
      case False
      then have "h' \<noteq> h1" "h' \<noteq> h2" using True by auto
      then show ?thesis using False
        by (simp add: lookupNode_Internal bit_bitpos lookupLeafNode_def)
    qed
    show ?thesis
      using True n(1,2) l by (subst mergeLeaves_unfold) simp
  qed
qed

lemma merge_inv:
  assumes "mergeLeaves (5 * length p) h1 es h2 key v = Some n" "h1 \<noteq> h2"
    "onPath p h1" "onPath p h2" "es \<noteq> []" "distinct (map fst es)"
  shows "invar p n"
proof -
  have "\<exists>m. length p + m = 7" 
  proof (rule ccontr)
    assume "\<not> ?thesis"
    then have "7 \<le> length p" by presburger
    then show False using onPath_full assms(2,3,4) by blast
  qed
  then obtain m where "length p + m = 7" ..
  then show ?thesis using assms(1,3,4)
  proof (induction m arbitrary: p n)
    case 0
    then show ?case using onPath_full[of p h1 h2] assms(2) by simp
  next
    case (Suc m)
    have len: "length p \<le> 6" using Suc.prems(1) by simp
    show ?case
    proof (cases "sliceAt h1 (5 * length p) = sliceAt h2 (5 * length p)")
      case False
      then show ?thesis
        using Suc.prems len assms(5,6)
        by (subst (asm) mergeLeaves_unfold)
           (auto simp: bitsOf_two onPath_snoc split: if_splits)
    next
      case True
      from Suc.prems(2) True obtain n' where
        n': "mergeLeaves (5 * length p + 5) h1 es h2 key v = Some n'" "n = Internal (bitpos h1 (5 * length p)) [n']"
        by (subst (asm) mergeLeaves_unfold) (auto simp: bind_eq_Some_conv)
      let ?p = "p @ [sliceAt h1 (5 * length p)]"
      have "invar ?p n'"
      proof (rule Suc.IH)
        show "length ?p + m = 7" using Suc.prems(1) by simp
        show "mergeLeaves (5 * length ?p) h1 es h2 key v = Some n'" using n'(1) by (simp add: add.commute)
        show "onPath ?p h1" "onPath ?p h2" using Suc.prems(3,4) True by (simp_all add: onPath_snoc)
      qed
      then show ?thesis
        using len by (simp add: n'(2) bitsOf_bitpos)
    qed
  qed
qed

section \<open>Insertion below a node\<close>

lemma find_map_of:
  "(case find (\<lambda>(k', _). k' = k) es of Some entry \<Rightarrow> Some (snd entry) | None \<Rightarrow> None) = map_of es k"
  by (induction es) auto

lemma lookupLeafNode_map_of:
  "lookupLeafNode h es h' k = (if h = h' then map_of es k else None)"
  by (simp add: lookupLeafNode_def find_map_of)

lemma findIndex_ge: "findIndex P xs \<ge> - 1"
  by (induction xs) (auto simp: Let_def)

lemma findIndex_none: "findIndex (\<lambda>(k', _). k' = k) es = - 1 \<longleftrightarrow> map_of es k = None"
proof (induction es)
  case Nil then show ?case by simp
next
  case (Cons e es)
  have "findIndex (\<lambda>(k', _). k' = k) es \<ge> - 1" by (rule findIndex_ge)
  then have "findIndex (\<lambda>(k', _). k' = k) es + 1 \<noteq> - 1" by linarith
  then show ?case using Cons by (cases e) (auto simp: Let_def)
qed

lemma findIndex_update:
  assumes "findIndex (\<lambda>(k', _). k' = k) es \<noteq> - 1"
  shows "map_of (es[nat (findIndex (\<lambda>(k', _). k' = k) es) := (k, v)]) = (map_of es)(k \<mapsto> v)
    \<and> map fst (es[nat (findIndex (\<lambda>(k', _). k' = k) es) := (k, v)]) = map fst es
    \<and> nat (findIndex (\<lambda>(k', _). k' = k) es) < length es"
  using assms
proof (induction es)
  case Nil then show ?case by simp
next
  case (Cons e es)
  obtain k0 v0 where e: "e = (k0, v0)" by (cases e)
  show ?case
  proof (cases "k0 = k")
    case True
    then show ?thesis by (auto simp: e)
  next
    case False
    let ?i = "findIndex (\<lambda>(k', _). k' = k) es"
    have i: "?i \<noteq> - 1" using Cons.prems False by (auto simp: e Let_def)
    moreover have "?i \<ge> - 1" by (rule findIndex_ge)
    ultimately have "?i \<ge> 0" by linarith
    then have n: "nat (?i + 1) = Suc (nat ?i)" by simp
    have f: "findIndex (\<lambda>(k', _). k' = k) (e # es) = ?i + 1"
      using False i by (simp add: e Let_def)
    show ?thesis
      unfolding f n using Cons.IH[OF i] False by (auto simp: e)
  qed
qed

lemma updateLeafNode_same:
  assumes "es \<noteq> []" "distinct (map fst es)"
  shows "\<exists>es'. updateLeafNode h es h s k v = Inr (Leaf h es', map_of es k = None)
     \<and> map_of es' = (map_of es)(k \<mapsto> v) \<and> es' \<noteq> [] \<and> distinct (map fst es')
     \<and> length es' = length es + (if map_of es k = None then 1 else 0)"
proof (cases "map_of es k = None")
  case True
  then have "k \<notin> fst ` set es" by (simp add: map_of_eq_None_iff)
  moreover have "[k \<mapsto> v] ++ map_of es = (map_of es)(k \<mapsto> v)"
    using True by (auto simp: map_add_def fun_eq_iff split: option.splits)
  ultimately show ?thesis
    using True assms by (auto simp: updateLeafNode_def findIndex_none map_of_append)
next
  case False
  then have i: "findIndex (\<lambda>(k', _). k' = k) es \<noteq> - 1" by (simp add: findIndex_none)
  show ?thesis
    using False i findIndex_update[OF i, of v] assms
    by (auto simp: updateLeafNode_def Let_def)
qed

lemma updateLeafNode_diff:
  assumes "h1 \<noteq> h"
  shows "\<exists>n. mergeLeaves s h1 es h k v = Some n \<and> updateLeafNode h1 es h s k v = Inr (n, True)"
proof -
  obtain j where "sliceAt h1 (s + 5 * j) \<noteq> sliceAt h (s + 5 * j)"
    using slices_differ[OF assms] by blast
  from merge_props[OF this, of es k v] obtain n where "mergeLeaves s h1 es h k v = Some n" by blast
  then show ?thesis using assms by (simp add: updateLeafNode_def)
qed

lemma merge_lookup:
  assumes "mergeLeaves s h1 es h k v = Some n" "h1 \<noteq> h"
  shows "entryCount n = length es + 1"
    "lookupNode n h' s k' = Inr (if h' = h1 then map_of es k' else if h' = h \<and> k' = k then Some v else None)"
proof -
  obtain j where "sliceAt h1 (s + 5 * j) \<noteq> sliceAt h (s + 5 * j)"
    using slices_differ[OF assms(2)] by blast
  from merge_props[OF this, of es k v] assms(1)
  have n: "entryCount n = length es + 1"
    "\<And>h' k'. lookupNode n h' s k' =
       Inr (if h' = h1 then lookupLeafNode h1 es h' k' else lookupLeafNode h [(k, v)] h' k')"
    by auto
  show "entryCount n = length es + 1" by (rule n(1))
  show "lookupNode n h' s k' = Inr (if h' = h1 then map_of es k' else if h' = h \<and> k' = k then Some v else None)"
    by (simp add: n(2) lookupLeafNode_map_of)
qed

lemma updateNode_Internal:
  "updateNode (Internal bm cs) h s k v =
    (if bit bm (sliceAt h s) then
       (if rank bm (sliceAt h s) < length cs then
          (case updateNode (cs ! rank bm (sliceAt h s)) h (s + 5) k v of
             Inl e \<Rightarrow> Inl e
           | Inr (c', ins) \<Rightarrow>
               if c' = cs ! rank bm (sliceAt h s) then Inr (Internal bm cs, False)
               else Inr (Internal bm (cs[rank bm (sliceAt h s) := c']), ins))
        else Inl TypeError)
     else Inr (Internal (bm OR bitpos h s)
            (take (rank bm (sliceAt h s)) cs @ [Leaf h [(k, v)]] @ drop (rank bm (sliceAt h s)) cs), True))"
  using and_bitpos[of bm h s]
  by (auto simp: updateNode.simps(2) updateInternalNode.simps Let_def idx_rank createInternal_def
        createLeaf_def
        split: sum.splits prod.splits)

lemma nth_insert:
  "r \<le> length cs \<Longrightarrow>
   (take r cs @ x # drop r cs) ! j = (if j < r then cs ! j else if j = r then x else cs ! (j - 1))"
  by (auto simp: nth_append min_def)

lemma lookup_total:
  "invar p n \<Longrightarrow> \<exists>r. lookupNode n h (5 * length p) k = Inr r"
proof (induction n arbitrary: p)
  case (Leaf h1 es) then show ?case by simp
next
  case (Internal bm cs)
  let ?s = "5 * length p" let ?i = "sliceAt h ?s" let ?r = "rank bm ?i"
  have all: "list_all2 (\<lambda>i c. invar (p @ [i]) c) (bitsOf bm) cs" using Internal.prems by simp
  then have len: "length cs = length (bitsOf bm)" by (simp add: list_all2_lengthD)
  show ?case
  proof (cases "bit bm ?i")
    case False then show ?thesis by (simp add: lookupNode_Internal)
  next
    case True
    have r: "?r < length cs" "bitsOf bm ! ?r = ?i" using rank_set[OF True] len by simp_all
    have "invar (p @ [?i]) (cs ! ?r)" using list_all2_nthD2[OF all r(1)] r(2) by simp
    from Internal.IH[OF _ this] r(1) obtain res where
      "lookupNode (cs ! ?r) h (5 * length (p @ [?i])) k = Inr res" by auto
    then show ?thesis using True r(1) by (simp add: lookupNode_Internal add.commute)
  qed
qed

lemma updateNode_correct:
  assumes "invar p n" "onPath p h"
  shows "\<exists>n' ins. updateNode n h (5 * length p) k v = Inr (n', ins) \<and> invar p n' \<and>
      (\<forall>h' k'. lookupNode n' h' (5 * length p) k' =
          (if h' = h \<and> k' = k then Inr (Some v) else lookupNode n h' (5 * length p) k')) \<and>
      (ins \<longleftrightarrow> lookupNode n h (5 * length p) k = Inr None) \<and>
      entryCount n' = entryCount n + (if ins then 1 else 0)"
  using assms
proof (induction n arbitrary: p)
  case (Leaf h1 es)
  then have es: "es \<noteq> []" "distinct (map fst es)" and p1: "onPath p h1" by simp_all
  show ?case
  proof (cases "h1 = h")
    case True
    from updateLeafNode_same[OF es, of h "5 * length p" k v] obtain es' where
      e: "updateLeafNode h es h (5 * length p) k v = Inr (Leaf h es', map_of es k = None)"
      "map_of es' = (map_of es)(k \<mapsto> v)" "es' \<noteq> []" "distinct (map fst es')"
      "length es' = length es + (if map_of es k = None then 1 else 0)" by blast
    show ?thesis
      using True e p1 by (auto simp: lookupLeafNode_map_of)
  next
    case False
    from updateLeafNode_diff[OF False, of "5 * length p" es k v] obtain n where
      n: "mergeLeaves (5 * length p) h1 es h k v = Some n"
      "updateLeafNode h1 es h (5 * length p) k v = Inr (n, True)" by blast
    have "invar p n" using merge_inv[OF n(1) False p1 Leaf.prems(2) es] .
    then show ?thesis
      using n(2) False merge_lookup[OF n(1) False] by (auto simp: lookupLeafNode_map_of)
  qed
next
  case (Internal bm cs)
  let ?s = "5 * length p" let ?i = "sliceAt h ?s" let ?r = "rank bm ?i"
  let ?Q = "\<lambda>i c. invar (p @ [i]) c"
  have lp: "length p \<le> 6" and bm: "bm \<noteq> 0" and all: "list_all2 ?Q (bitsOf bm) cs"
    using Internal.prems by simp_all
  have len: "length cs = length (bitsOf bm)" using all by (simp add: list_all2_lengthD)
  have s5: "?s + 5 = 5 * length (p @ [?i])" by simp
  show ?case
  proof (cases "bit bm ?i")
    case True
    have r: "?r < length cs" "bitsOf bm ! ?r = ?i" using rank_set[OF True] len by simp_all
    let ?c = "cs ! ?r"
    have ic: "invar (p @ [?i]) ?c" using list_all2_nthD2[OF all r(1)] r(2) by simp
    have op: "onPath (p @ [?i]) h" using Internal.prems(2) by (simp add: onPath_snoc)
    have "?c \<in> set cs" using r(1) by simp
    from Internal.IH[OF this ic op] obtain c' ins where
      u: "updateNode ?c h (?s + 5) k v = Inr (c', ins)" and ic': "invar (p @ [?i]) c'"
      and lk: "\<And>h' k'. lookupNode c' h' (?s + 5) k' =
          (if h' = h \<and> k' = k then Inr (Some v) else lookupNode ?c h' (?s + 5) k')"
      and fl: "ins \<longleftrightarrow> lookupNode ?c h (?s + 5) k = Inr None"
      and cnt: "entryCount c' = entryCount ?c + (if ins then 1 else 0)"
      unfolding s5 by blast
    have old: "lookupNode (Internal bm cs) h ?s k = lookupNode ?c h (?s + 5) k"
      using True r(1) by (simp add: lookupNode_Internal)
    show ?thesis
    proof (cases "c' = ?c")
      case same: True
      have res: "updateNode (Internal bm cs) h ?s k v = Inr (Internal bm cs, False)"
        using True r(1) u same by (simp add: updateNode_Internal)
      have here: "lookupNode ?c h (?s + 5) k = Inr (Some v)"
        using lk[of h k] same by simp
      show ?thesis
        using res Internal.prems(1) old here
        by (intro exI[of _ "Internal bm cs"] exI[of _ False]) simp
    next
      case diff: False
      let ?cs' = "cs[?r := c']"
      have res: "updateNode (Internal bm cs) h ?s k v = Inr (Internal bm ?cs', ins)"
        using True r(1) u diff by (simp add: updateNode_Internal)
      have "list_all2 ?Q ((bitsOf bm)[?r := ?i]) ?cs'"
        using all ic' by (rule list_all2_update_cong)
      moreover have "(bitsOf bm)[?r := ?i] = bitsOf bm"
        using r(2) by (metis list_update_id)
      ultimately have inv': "invar p (Internal bm ?cs')"
        using lp bm by simp
      have look: "lookupNode (Internal bm ?cs') h' ?s k' =
          (if h' = h \<and> k' = k then Inr (Some v) else lookupNode (Internal bm cs) h' ?s k')" for h' k'
      proof (cases "bit bm (sliceAt h' ?s)")
        case False
        then have "h' \<noteq> h" using True by auto
        then show ?thesis using False by (simp add: lookupNode_Internal)
      next
        case b': True
        have r': "rank bm (sliceAt h' ?s) < length cs" using rank_set(1)[OF b'] len by simp
        show ?thesis
        proof (cases "sliceAt h' ?s = ?i")
          case True
          then show ?thesis using b' r(1) by (simp add: lookupNode_Internal lk)
        next
          case False
          then have "rank bm (sliceAt h' ?s) \<noteq> ?r" using rank_inj[OF b' \<open>bit bm ?i\<close>] by blast
          moreover have "h' \<noteq> h" using False by auto
          ultimately show ?thesis using b' r' by (simp add: lookupNode_Internal)
        qed
      qed
      have "sum_list (map entryCount ?cs') = sum_list (map entryCount cs) + entryCount c' - entryCount ?c"
        using r(1) by (simp add: map_update sum_list_update)
      moreover have "entryCount ?c \<le> sum_list (map entryCount cs)"
        using r(1) by (simp add: member_le_sum_list)
      ultimately have count: "entryCount (Internal bm ?cs') = entryCount (Internal bm cs) + (if ins then 1 else 0)"
        using cnt by simp
      show ?thesis
        using res inv' look fl old count
        by (intro exI[of _ "Internal bm ?cs'"] exI[of _ ins]) simp
    qed
  next
    case False
    have i32: "?i < 32" by (rule sliceAt_less)
    have rl: "?r \<le> length cs" using rank_le[OF i32, of bm] len by simp
    let ?leaf = "Leaf h [(k, v)]"
    let ?cs' = "take ?r cs @ [?leaf] @ drop ?r cs"
    let ?bm' = "bm OR bitpos h ?s"
    have res: "updateNode (Internal bm cs) h ?s k v = Inr (Internal ?bm' ?cs', True)"
      using False by (simp add: updateNode_Internal)
    have "list_all2 ?Q [?i] [?leaf]"
      using Internal.prems(2) by (simp add: onPath_snoc)
    then have "list_all2 ?Q (take ?r (bitsOf bm) @ [?i] @ drop ?r (bitsOf bm)) ?cs'"
      using all by (intro list_all2_appendI list_all2_takeI list_all2_dropI)
    then have inv': "invar p (Internal ?bm' ?cs')"
      using lp by (simp add: bitsOf_or[OF False])
    have old: "lookupNode (Internal bm cs) h ?s k = Inr None"
      using False by (simp add: lookupNode_Internal)
    have look: "lookupNode (Internal ?bm' ?cs') h' ?s k' =
        (if h' = h \<and> k' = k then Inr (Some v) else lookupNode (Internal bm cs) h' ?s k')" for h' k'
    proof (cases "sliceAt h' ?s = ?i")
      case True
      then show ?thesis
        using False rl
        by (simp add: lookupNode_Internal bit_or_bitpos rank_or nth_append lookupLeafNode_map_of)
    next
      case ne: False
      then have hh: "h' \<noteq> h" by auto
      show ?thesis
      proof (cases "bit bm (sliceAt h' ?s)")
        case False
        then show ?thesis using ne hh by (simp add: lookupNode_Internal bit_or_bitpos)
      next
        case b': True
        let ?r' = "rank bm (sliceAt h' ?s)"
        have r': "?r' < length cs" using rank_set(1)[OF b'] len by simp
        show ?thesis
        proof (cases "sliceAt h' ?s < ?i")
          case True
          then have "?r' < ?r" using rank_strict[OF b'] by simp
          then show ?thesis
            using ne hh b' r' rl True False
            by (simp add: lookupNode_Internal bit_or_bitpos rank_or nth_insert)
        next
          case ge: False
          then have lt: "?i < sliceAt h' ?s" using ne by simp
          then have "?r \<le> ?r'" using rank_mono[of ?i "sliceAt h' ?s" bm] by simp
          then show ?thesis
            using ne hh b' r' rl lt False
            by (simp add: lookupNode_Internal bit_or_bitpos rank_or nth_insert)
        qed
      qed
    qed
    have "sum_list (map entryCount ?cs') = sum_list (map entryCount (take ?r cs @ drop ?r cs)) + 1"
      by (simp del: append_take_drop_id)
    then have count: "entryCount (Internal ?bm' ?cs') = entryCount (Internal bm cs) + 1"
      by simp
    show ?thesis
      using res inv' look old count
      by (intro exI[of _ "Internal ?bm' ?cs'"] exI[of _ True]) simp
  qed
qed

lemma updateNode_same:
  assumes "invar p n" "onPath p h" "updateNode n h (5 * length p) k v = Inr (n, ins)"
  shows "\<not> ins"
proof -
  from updateNode_correct[OF assms(1,2), of k v] obtain n' ins' where
    u: "updateNode n h (5 * length p) k v = Inr (n', ins')"
    and lk: "\<And>h' k'. lookupNode n' h' (5 * length p) k' =
        (if h' = h \<and> k' = k then Inr (Some v) else lookupNode n h' (5 * length p) k')"
    and fl: "ins' \<longleftrightarrow> lookupNode n h (5 * length p) k = Inr None"
    by blast
  have e: "n' = n" "ins' = ins" using u assms(3) by simp_all
  have "lookupNode n h (5 * length p) k = Inr (Some v)"
    using lk[of h k] unfolding e by simp
  then show ?thesis using fl unfolding e by simp
qed

section \<open>Removal below a node\<close>

lemma lookupOpt_simps [simp]:
  "lookupOpt None h s k = Inr None" "lookupOpt (Some n) h s k = lookupNode n h s k"
  by (simp_all add: lookupOpt_def)

lemma countOpt_simps [simp]: "countOpt None = 0" "countOpt (Some n) = entryCount n"
  by (simp_all add: countOpt_def)

lemma map_of_filter_neq:
  "map_of (filter (\<lambda>(k', _). k' \<noteq> k) es) k'' = (if k'' = k then None else map_of es k'')"
  by (induction es) auto

lemma length_filter_neq:
  "distinct (map fst es) \<Longrightarrow>
   length (filter (\<lambda>(k', _). k' \<noteq> k) es) + (if map_of es k = None then 0 else 1) = length es"
proof (induction es)
  case Nil then show ?case by simp
next
  case (Cons e es)
  obtain k0 v0 where e: "e = (k0, v0)" by (cases e)
  show ?case
  proof (cases "k0 = k")
    case True
    then have "k \<notin> fst ` set es" using Cons.prems by (simp add: e)
    then have "map_of es k = None" by (simp add: map_of_eq_None_iff)
    then show ?thesis using Cons True by (simp add: e)
  next
    case False
    then show ?thesis using Cons by (simp add: e)
  qed
qed

lemma distinct_filter_keys:
  "distinct (map fst es) \<Longrightarrow> distinct (map fst (filter P es))"
  by (simp add: distinct_map_filter)

lemma removeLeafNode_correct:
  assumes "es \<noteq> []" "distinct (map fst es)"
  shows "\<exists>res del. removeLeafNode h1 es h k = (res, del) \<and>
     (\<forall>n'. res = Some n' \<longrightarrow> invar p (Leaf h1 es) \<longrightarrow> invar p n') \<and>
     (\<forall>h' k'. lookupOpt res h' s k' =
         (if h' = h \<and> k' = k then Inr None else lookupNode (Leaf h1 es) h' s k')) \<and>
     (del \<longleftrightarrow> lookupNode (Leaf h1 es) h s k \<noteq> Inr None) \<and>
     countOpt res + (if del then 1 else 0) = length es \<and>
     (\<not> del \<longrightarrow> res = Some (Leaf h1 es))"
proof (cases "h1 = h")
  case False
  then show ?thesis
    by (auto simp: removeLeafNode_def lookupLeafNode_map_of)
next
  case True
  let ?f = "filter (\<lambda>(k', _). k' \<noteq> k) es"
  have len: "length ?f + (if map_of es k = None then 0 else 1) = length es"
    using assms(2) by (rule length_filter_neq)
  have d: "distinct (map fst ?f)" using assms(2) by (rule distinct_filter_keys)
  have m: "map_of ?f k'' = (if k'' = k then None else map_of es k'')" for k''
    by (rule map_of_filter_neq)
  show ?thesis
  proof (cases "map_of es k = None")
    case None: True
    then have "length ?f = length es" using len by simp
    then show ?thesis
      using True None assms(1)
      by (auto simp: removeLeafNode_def lookupLeafNode_map_of Let_def)
  next
    case Some: False
    then have l1: "Suc (length ?f) = length es" using len by auto
    show ?thesis
    proof (cases "?f = []")
      case e: True
      have "map_of es k' = None" if "k' \<noteq> k" for k'
        using m[of k'] e that by simp
      then show ?thesis
        using True Some e l1
        by (auto simp: removeLeafNode_def lookupLeafNode_map_of Let_def)
    next
      case ne: False
      have "length ?f \<noteq> length es" using l1 by simp
      then show ?thesis
        using True Some ne l1 d m
        by (auto simp: removeLeafNode_def lookupLeafNode_map_of Let_def)
    qed
  qed
qed

lemma removeNode_Internal:
  "removeNode (Internal bm cs) h s k =
    (if \<not> bit bm (sliceAt h s) then Inr (Some (Internal bm cs), False)
     else if rank bm (sliceAt h s) < length cs then
       (case removeNode (cs ! rank bm (sliceAt h s)) h (s + 5) k of
          Inl e \<Rightarrow> Inl e
        | Inr (nc, del) \<Rightarrow>
            if \<not> del then Inr (Some (Internal bm cs), False)
            else (case nc of
                    None \<Rightarrow>
                      if bm AND NOT (bitpos h s) = 0 then Inr (None, True)
                      else Inr (Some (Internal (bm AND NOT (bitpos h s))
                              (take (rank bm (sliceAt h s)) cs @ drop (Suc (rank bm (sliceAt h s))) cs)), True)
                  | Some c \<Rightarrow> Inr (Some (Internal bm (cs[rank bm (sliceAt h s) := c])), True)))
     else Inl TypeError)"
  using and_bitpos[of bm h s]
  by (auto simp: removeNode.simps(2) removeInternalNode.simps Let_def idx_rank createInternal_def
        split: sum.splits prod.splits option.splits)

lemma nth_delete:
  "r < length cs \<Longrightarrow> (take r cs @ drop (Suc r) cs) ! j = (if j < r then cs ! j else cs ! Suc j)"
  by (auto simp: nth_append min_def)

lemma sum_list_delete:
  "r < length cs \<Longrightarrow>
   sum_list (map f (take r cs @ drop (Suc r) cs)) + f (cs ! r) = sum_list (map (f :: 'a \<Rightarrow> nat) cs)"
proof -
  assume "r < length cs"
  then have "cs = take r cs @ cs ! r # drop (Suc r) cs" by (rule id_take_nth_drop)
  then have "sum_list (map f cs) = sum_list (map f (take r cs @ cs ! r # drop (Suc r) cs))" by simp
  then show ?thesis by simp
qed

lemma removeNode_correct:
  assumes "invar p n"
  shows "\<exists>res del. removeNode n h (5 * length p) k = Inr (res, del) \<and>
     (\<forall>n'. res = Some n' \<longrightarrow> invar p n') \<and>
     (\<forall>h' k'. lookupOpt res h' (5 * length p) k' =
         (if h' = h \<and> k' = k then Inr None else lookupNode n h' (5 * length p) k')) \<and>
     (del \<longleftrightarrow> lookupNode n h (5 * length p) k \<noteq> Inr None) \<and>
     countOpt res + (if del then 1 else 0) = entryCount n \<and>
     (\<not> del \<longrightarrow> res = Some n)"
  using assms
proof (induction n arbitrary: p)
  case (Leaf h1 es)
  then have es: "es \<noteq> []" "distinct (map fst es)" by simp_all
  from removeLeafNode_correct[OF es, of h1 h k p "5 * length p"] Leaf.prems
  show ?case by auto
next
  case (Internal bm cs)
  let ?s = "5 * length p" let ?i = "sliceAt h ?s" let ?r = "rank bm ?i"
  let ?Q = "\<lambda>i c. invar (p @ [i]) c"
  let ?n = "Internal bm cs"
  have lp: "length p \<le> 6" and bm: "bm \<noteq> 0" and all: "list_all2 ?Q (bitsOf bm) cs"
    using Internal.prems by simp_all
  have len: "length cs = length (bitsOf bm)" using all by (simp add: list_all2_lengthD)
  have s5: "?s + 5 = 5 * length (p @ [?i])" by simp
  show ?case
  proof (cases "bit bm ?i")
    case False
    have res: "removeNode ?n h ?s k = Inr (Some ?n, False)"
      using False by (simp add: removeNode_Internal)
    have old: "lookupNode ?n h ?s k = Inr None"
      using False by (simp add: lookupNode_Internal)
    show ?thesis
      using res old Internal.prems
      by (intro exI[of _ "Some ?n"] exI[of _ False]) simp
  next
    case True
    have r: "?r < length cs" "bitsOf bm ! ?r = ?i" using rank_set[OF True] len by simp_all
    let ?c = "cs ! ?r"
    have ic: "invar (p @ [?i]) ?c" using list_all2_nthD2[OF all r(1)] r(2) by simp
    have "?c \<in> set cs" using r(1) by simp
    from Internal.IH[OF this ic] obtain rc del where
      u: "removeNode ?c h (?s + 5) k = Inr (rc, del)"
      and ic': "\<And>n'. rc = Some n' \<Longrightarrow> invar (p @ [?i]) n'"
      and lk: "\<And>h' k'. lookupOpt rc h' (?s + 5) k' =
          (if h' = h \<and> k' = k then Inr None else lookupNode ?c h' (?s + 5) k')"
      and fl: "del \<longleftrightarrow> lookupNode ?c h (?s + 5) k \<noteq> Inr None"
      and cnt: "countOpt rc + (if del then 1 else 0) = entryCount ?c"
      and nd: "\<not> del \<Longrightarrow> rc = Some ?c"
      unfolding s5 by blast
    have old: "lookupNode ?n h' ?s k' = lookupNode ?c h' (?s + 5) k'" if "sliceAt h' ?s = ?i" for h' k'
      using True r(1) that by (simp add: lookupNode_Internal)
    have csum: "sum_list (map entryCount (take ?r cs @ drop (Suc ?r) cs)) + entryCount ?c
        = sum_list (map entryCount cs)"
      using r(1) by (rule sum_list_delete)
    show ?thesis
    proof (cases del)
      case False
      have res: "removeNode ?n h ?s k = Inr (Some ?n, False)"
        using True r(1) u False by (simp add: removeNode_Internal)
      have "lookupNode ?n h ?s k = Inr None"
        using old[of h k] fl False by simp
      then show ?thesis
        using res Internal.prems
        by (intro exI[of _ "Some ?n"] exI[of _ False]) simp
    next
      case del: True
      have hit: "lookupNode ?n h ?s k \<noteq> Inr None"
        using old[of h k] fl del by simp
      show ?thesis
      proof (cases rc)
        case (Some c')
        let ?cs' = "cs[?r := c']"
        have res: "removeNode ?n h ?s k = Inr (Some (Internal bm ?cs'), True)"
          using True r(1) u del Some by (simp add: removeNode_Internal)
        have "list_all2 ?Q ((bitsOf bm)[?r := ?i]) ?cs'"
          using all ic'[OF Some] by (rule list_all2_update_cong)
        moreover have "(bitsOf bm)[?r := ?i] = bitsOf bm"
          using r(2) by (metis list_update_id)
        ultimately have inv': "invar p (Internal bm ?cs')"
          using lp bm by simp
        have look: "lookupNode (Internal bm ?cs') h' ?s k' =
            (if h' = h \<and> k' = k then Inr None else lookupNode ?n h' ?s k')" for h' k'
        proof (cases "bit bm (sliceAt h' ?s)")
          case False
          then have "h' \<noteq> h" using True by auto
          then show ?thesis using False by (simp add: lookupNode_Internal)
        next
          case b': True
          have r': "rank bm (sliceAt h' ?s) < length cs" using rank_set(1)[OF b'] len by simp
          show ?thesis
          proof (cases "sliceAt h' ?s = ?i")
            case True
            then show ?thesis using b' r(1) lk[of h' k'] Some by (simp add: lookupNode_Internal)
          next
            case False
            then have "rank bm (sliceAt h' ?s) \<noteq> ?r" using rank_inj[OF b' \<open>bit bm ?i\<close>] by blast
            moreover have "h' \<noteq> h" using False by auto
            ultimately show ?thesis using b' r' by (simp add: lookupNode_Internal)
          qed
        qed
        have "sum_list (map entryCount ?cs') = sum_list (map entryCount cs) + entryCount c' - entryCount ?c"
          using r(1) by (simp add: map_update sum_list_update)
        moreover have "entryCount ?c \<le> sum_list (map entryCount cs)"
          using r(1) by (simp add: member_le_sum_list)
        ultimately have count: "entryCount (Internal bm ?cs') + 1 = entryCount ?n"
          using cnt del Some by simp
        show ?thesis
          using res inv' look hit count
          by (intro exI[of _ "Some (Internal bm ?cs')"] exI[of _ True]) simp
      next
        case None
        have c1: "entryCount ?c = 1" using cnt del None by simp
        have gone: "lookupNode ?c h' (?s + 5) k' = Inr None" if "\<not> (h' = h \<and> k' = k)" for h' k'
          using lk[of h' k'] None that by auto
        let ?bm' = "bm AND NOT (bitpos h ?s)"
        let ?cs' = "take ?r cs @ drop (Suc ?r) cs"
        have bits': "bitsOf ?bm' = take ?r (bitsOf bm) @ drop (Suc ?r) (bitsOf bm)"
          using True by (rule bitsOf_andnot)
        show ?thesis
        proof (cases "?bm' = 0")
          case z: True
          have res: "removeNode ?n h ?s k = Inr (None, True)"
            using True r(1) u del None z by (simp add: removeNode_Internal)
          have only: "sliceAt h' ?s = ?i" if "bit bm (sliceAt h' ?s)" for h'
          proof (rule ccontr)
            assume "sliceAt h' ?s \<noteq> ?i"
            then have "bit ?bm' (sliceAt h' ?s)" using that by (simp add: bit_andnot_bitpos)
            then show False using z by simp
          qed
          have look: "lookupNode ?n h' ?s k' = Inr None" if "\<not> (h' = h \<and> k' = k)" for h' k'
          proof (cases "bit bm (sliceAt h' ?s)")
            case False then show ?thesis by (simp add: lookupNode_Internal)
          next
            case True
            then show ?thesis using old[OF only[OF True]] gone[OF that] by simp
          qed
          have "length (bitsOf bm)
              = length (take ?r (bitsOf bm) @ bitsOf bm ! ?r # drop (Suc ?r) (bitsOf bm))"
            using id_take_nth_drop[OF rank_set(1)[OF True]] by simp
          also have "\<dots> = length (take ?r (bitsOf bm) @ drop (Suc ?r) (bitsOf bm)) + 1"
            by simp
          also have "\<dots> = length (bitsOf ?bm') + 1"
            by (simp only: bits')
          finally have "length (bitsOf bm) = 1"
            by (simp add: z)
          then have "length cs = 1" using len by simp
          then obtain c0 where "cs = [c0]" by (cases cs) auto
          then have count: "entryCount ?n = 1" using c1 r(1) by simp
          show ?thesis
            using res look hit count
            by (intro exI[of _ None] exI[of _ True]) simp
        next
          case nz: False
          have res: "removeNode ?n h ?s k = Inr (Some (Internal ?bm' ?cs'), True)"
            using True r(1) u del None nz by (simp add: removeNode_Internal)
          have "list_all2 ?Q (take ?r (bitsOf bm) @ drop (Suc ?r) (bitsOf bm)) ?cs'"
            using all by (intro list_all2_appendI list_all2_takeI list_all2_dropI)
          then have inv': "invar p (Internal ?bm' ?cs')"
            using lp nz by (simp add: bits')
          have look: "lookupNode (Internal ?bm' ?cs') h' ?s k' =
              (if h' = h \<and> k' = k then Inr None else lookupNode ?n h' ?s k')" for h' k'
          proof (cases "sliceAt h' ?s = ?i")
            case e: True
            show ?thesis
              using e old[OF e, of k'] gone[of h' k']
              by (auto simp: lookupNode_Internal bit_andnot_bitpos)
          next
            case ne: False
            then have hh: "h' \<noteq> h" by auto
            show ?thesis
            proof (cases "bit bm (sliceAt h' ?s)")
              case False
              then show ?thesis using hh by (simp add: lookupNode_Internal bit_andnot_bitpos)
            next
              case b': True
              let ?r' = "rank bm (sliceAt h' ?s)"
              have r': "?r' < length cs" using rank_set(1)[OF b'] len by simp
              show ?thesis
              proof (cases "sliceAt h' ?s < ?i")
                case lt: True
                then have "?r' < ?r" using rank_strict[OF b'] by simp
                moreover from this have "?r' < length cs - Suc 0" using r(1) by linarith
                ultimately show ?thesis
                  using ne hh b' r' r(1) lt True
                  by (simp add: lookupNode_Internal bit_andnot_bitpos rank_andnot nth_delete)
              next
                case False
                then have lt: "?i < sliceAt h' ?s" using ne by simp
                then have "?r < ?r'" using rank_strict[OF True] by simp
                moreover from this have "?r' - Suc 0 < length cs - Suc 0" "\<not> ?r' - Suc 0 < ?r"
                  "Suc (?r' - Suc 0) = ?r'" using r' by linarith+
                ultimately show ?thesis
                  using ne hh b' r' r(1) lt True
                  by (simp add: lookupNode_Internal bit_andnot_bitpos rank_andnot nth_delete)
              qed
            qed
          qed
          have count: "entryCount (Internal ?bm' ?cs') + 1 = entryCount ?n"
            using csum c1 by simp
          show ?thesis
            using res inv' look hit count
            by (intro exI[of _ "Some (Internal ?bm' ?cs')"] exI[of _ True]) simp
        qed
      qed
    qed
  qed
qed

section \<open>Maps\<close>

lemma invar_empty: "invar_hamt empty_hamt"
  by (simp add: invar_hamt_def empty_hamt_def)

lemma lookup_total_hamt: "invar_hamt m \<Longrightarrow> \<exists>r. lookup m k = Inr r"
  using lookup_total[of "[]" _ "hash k" k]
  by (auto simp: invar_hamt_def lookup_def Let_def split: option.splits)

lemma insert_correct:
  assumes "invar_hamt m"
  shows "\<exists>m'. insert_hamt m k v = Inr m' \<and> invar_hamt m' \<and>
    (\<forall>k'. lookup m' k' = (if k' = k then Inr (Some v) else lookup m k')) \<and>
    size_hamt m' = size_hamt m + (if lookup m k = Inr None then 1 else 0)"
proof (cases "root m")
  case None
  then show ?thesis
    using assms
    by (auto simp: insert_hamt_def invar_hamt_def lookup_def Let_def createLeaf_def lookupLeafNode_map_of)
next
  case (Some n)
  then have i: "invar [] n" and sz: "size_hamt m = int (entryCount n)"
    using assms by (simp_all add: invar_hamt_def)
  have "\<exists>n' ins. updateNode n (hash k) 0 k v = Inr (n', ins) \<and> invar [] n' \<and>
      (\<forall>h' k'. lookupNode n' h' 0 k' =
          (if h' = hash k \<and> k' = k then Inr (Some v) else lookupNode n h' 0 k')) \<and>
      (ins \<longleftrightarrow> lookupNode n (hash k) 0 k = Inr None) \<and>
      entryCount n' = entryCount n + (if ins then 1 else 0)"
    using updateNode_correct[OF i onPath_Nil, of "hash k" k v]
    unfolding list.size mult_zero_right .
  then obtain n' ins where
    u: "updateNode n (hash k) 0 k v = Inr (n', ins)" and i': "invar [] n'"
    and lk: "\<And>h' k'. lookupNode n' h' 0 k' =
        (if h' = hash k \<and> k' = k then Inr (Some v) else lookupNode n h' 0 k')"
    and fl: "ins \<longleftrightarrow> lookupNode n (hash k) 0 k = Inr None"
    and cnt: "entryCount n' = entryCount n + (if ins then 1 else 0)"
    by blast
  let ?m' = "\<lparr>root = Some n', size_hamt = size_hamt m + (if ins then 1 else 0)\<rparr>"
  have "insert_hamt m k v = Inr ?m'"
    using Some u by (simp add: insert_hamt_def Let_def)
  moreover have "invar_hamt ?m'" using i' sz cnt by (simp add: invar_hamt_def)
  moreover have "lookup ?m' k' = (if k' = k then Inr (Some v) else lookup m k')" for k'
    using Some lk[of "hash k'" k'] by (auto simp: lookup_def Let_def)
  moreover have "size_hamt ?m' = size_hamt m + (if lookup m k = Inr None then 1 else 0)"
    using Some fl by (simp add: lookup_def Let_def)
  ultimately show ?thesis by blast
qed

lemma remove_correct:
  assumes "invar_hamt m"
  shows "\<exists>m'. remove_hamt m k = Inr m' \<and> invar_hamt m' \<and>
    (\<forall>k'. lookup m' k' = (if k' = k then Inr None else lookup m k')) \<and>
    size_hamt m' = size_hamt m - (if lookup m k = Inr None then 0 else 1) \<and>
    (root m = None \<longrightarrow> root m' = None)"
proof (cases "root m")
  case None
  then show ?thesis
    using assms by (auto simp: remove_hamt_def invar_hamt_def lookup_def Let_def)
next
  case (Some n)
  then have i: "invar [] n" and sz: "size_hamt m = int (entryCount n)"
    using assms by (simp_all add: invar_hamt_def)
  have "\<exists>res del. removeNode n (hash k) 0 k = Inr (res, del) \<and>
     (\<forall>n'. res = Some n' \<longrightarrow> invar [] n') \<and>
     (\<forall>h' k'. lookupOpt res h' 0 k' =
         (if h' = hash k \<and> k' = k then Inr None else lookupNode n h' 0 k')) \<and>
     (del \<longleftrightarrow> lookupNode n (hash k) 0 k \<noteq> Inr None) \<and>
     countOpt res + (if del then 1 else 0) = entryCount n \<and>
     (\<not> del \<longrightarrow> res = Some n)"
    using removeNode_correct[OF i, of "hash k" k]
    unfolding list.size mult_zero_right .
  then obtain res del where
    u: "removeNode n (hash k) 0 k = Inr (res, del)"
    and i': "\<And>n'. res = Some n' \<Longrightarrow> invar [] n'"
    and lk: "\<And>h' k'. lookupOpt res h' 0 k' =
        (if h' = hash k \<and> k' = k then Inr None else lookupNode n h' 0 k')"
    and fl: "del \<longleftrightarrow> lookupNode n (hash k) 0 k \<noteq> Inr None"
    and cnt: "countOpt res + (if del then 1 else 0) = entryCount n"
    by blast
  let ?m' = "\<lparr>root = res, size_hamt = max 0 (size_hamt m + (if del then - 1 else 0))\<rparr>"
  have r: "remove_hamt m k = Inr ?m'"
    using Some u by (simp add: remove_hamt_def Let_def)
  have s': "size_hamt ?m' = int (countOpt res)"
    using sz cnt by (auto split: if_splits)
  have "invar_hamt ?m'" using i' s' by (cases res) (simp_all add: invar_hamt_def)
  moreover have "lookup ?m' k' = (if k' = k then Inr None else lookup m k')" for k'
    using Some lk[of "hash k'" k'] by (cases res) (auto simp: lookup_def Let_def)
  moreover have "size_hamt ?m' = size_hamt m - (if lookup m k = Inr None then 0 else 1)"
    using Some fl sz cnt by (auto simp: lookup_def Let_def split: if_splits)
  ultimately show ?thesis using r Some by auto
qed

lemma applyOp_correct:
  assumes "invar_hamt m"
  shows "\<exists>m'. applyOp m x = Inr m' \<and> invar_hamt m'"
  using insert_correct[OF assms] remove_correct[OF assms] by (cases x) (simp_all, blast+)

lemma applyOps_invar: "invar_hamt m \<Longrightarrow> \<exists>m'. applyOps m ops = Inr m' \<and> invar_hamt m'"
proof (induction ops arbitrary: m)
  case Nil then show ?case by simp
next
  case (Cons x ops)
  from applyOp_correct[OF Cons.prems, of x] obtain m1 where "applyOp m x = Inr m1" "invar_hamt m1" by blast
  then show ?case using Cons.IH[of m1] by simp
qed

lemma build_invar: "build ops = Inr m \<Longrightarrow> invar_hamt m"
  using applyOps_invar[OF invar_empty, of ops] by (auto simp: build_def)

lemma build_total: "\<exists>m. build ops = Inr m"
  using applyOps_invar[OF invar_empty, of ops] by (auto simp: build_def)

lemma lookup_cases:
  assumes "invar_hamt m"
  shows "lookup m k = Inr None \<longleftrightarrow> k \<notin> keysOf m"
  using lookup_total_hamt[OF assms, of k] by (auto simp: keysOf_def)

lemma keysOf_empty: "keysOf empty_hamt = {}"
  by (simp add: keysOf_def lookup_def empty_hamt_def)

lemma keysOf_step:
  assumes "invar_hamt m" "applyOp m x = Inr m'"
  shows "invar_hamt m'"
    "keysOf m' = (case x of Insert k v \<Rightarrow> insert k (keysOf m) | Remove k \<Rightarrow> keysOf m - {k})"
    "size_hamt m' = (case x of
        Insert k v \<Rightarrow> size_hamt m + (if k \<in> keysOf m then 0 else 1)
      | Remove k \<Rightarrow> size_hamt m - (if k \<in> keysOf m then 1 else 0))"
proof -
  show "invar_hamt m'" using applyOp_correct[OF assms(1), of x] assms(2) by auto
  show "keysOf m' = (case x of Insert k v \<Rightarrow> insert k (keysOf m) | Remove k \<Rightarrow> keysOf m - {k})"
  proof (cases x)
    case (Insert k v)
    then show ?thesis
      using insert_correct[OF assms(1), of k v] assms(2) by (auto simp: keysOf_def)
  next
    case (Remove k)
    then show ?thesis
      using remove_correct[OF assms(1), of k] assms(2) by (auto simp: keysOf_def)
  qed
  show "size_hamt m' = (case x of
        Insert k v \<Rightarrow> size_hamt m + (if k \<in> keysOf m then 0 else 1)
      | Remove k \<Rightarrow> size_hamt m - (if k \<in> keysOf m then 1 else 0))"
  proof (cases x)
    case (Insert k v)
    then show ?thesis
      using insert_correct[OF assms(1), of k v] assms(2) lookup_cases[OF assms(1), of k] by auto
  next
    case (Remove k)
    then show ?thesis
      using remove_correct[OF assms(1), of k] assms(2) lookup_cases[OF assms(1), of k] by auto
  qed
qed

lemma applyOps_card:
  assumes "invar_hamt m" "finite (keysOf m)" "size_hamt m = int (card (keysOf m))" "applyOps m ops = Inr m'"
  shows "finite (keysOf m') \<and> size_hamt m' = int (card (keysOf m'))"
  using assms
proof (induction ops arbitrary: m)
  case Nil then show ?case by simp
next
  case (Cons x ops)
  from applyOp_correct[OF Cons.prems(1), of x] obtain m1 where m1: "applyOp m x = Inr m1" by blast
  note st = keysOf_step[OF Cons.prems(1) m1]
  have fin: "finite (keysOf m1)" using st(2) Cons.prems(2) by (cases x) simp_all
  have "size_hamt m1 = int (card (keysOf m1))"
  proof (cases x)
    case (Insert k v)
    then show ?thesis using st(2,3) Cons.prems(2,3) by (simp add: insert_absorb)
  next
    case (Remove k)
    have "k \<in> keysOf m \<Longrightarrow> card (keysOf m) \<ge> 1"
      using Cons.prems(2) by (metis One_nat_def Suc_leI card_gt_0_iff empty_iff)
    then show ?thesis using Remove st(2,3) Cons.prems(2,3) by (auto simp: of_nat_diff)
  qed
  then show ?case using Cons.IH[OF st(1) fin] Cons.prems(4) m1 by simp
qed

lemma applyOps_inserts:
  assumes "invar_hamt m"
  shows "\<exists>m'. applyOps m (map (\<lambda>(k, v). Insert k v) kvs) = Inr m' \<and>
    keysOf m' = keysOf m \<union> fst ` set kvs"
  using assms
proof (induction kvs arbitrary: m)
  case Nil then show ?case by simp
next
  case (Cons kv kvs)
  obtain k v where kv: "kv = (k, v)" by (cases kv)
  from applyOp_correct[OF Cons.prems, of "Insert k v"] obtain m1 where
    m1: "applyOp m (Insert k v) = Inr m1" by blast
  note st = keysOf_step[OF Cons.prems m1]
  from Cons.IH[OF st(1)] obtain m' where
    "applyOps m1 (map (\<lambda>(k, v). Insert k v) kvs) = Inr m'" "keysOf m' = keysOf m1 \<union> fst ` set kvs"
    by blast
  then show ?case using m1 st(2) by (auto simp: kv)
qed

lemma invar_depth: "invar p n \<Longrightarrow> depth n \<le> 7 - length p"
proof (induction n arbitrary: p)
  case (Leaf h es) then show ?case by simp
next
  case (Internal bm cs)
  have lp: "length p \<le> 6" and all: "list_all2 (\<lambda>i c. invar (p @ [i]) c) (bitsOf bm) cs"
    using Internal.prems by simp_all
  have "depth c \<le> 6 - length p" if "c \<in> set cs" for c
  proof -
    from that obtain j where j: "j < length cs" "c = cs ! j" by (auto simp: in_set_conv_nth)
    have "invar (p @ [bitsOf bm ! j]) c" using list_all2_nthD2[OF all j(1)] j(2) by simp
    from Internal.IH[OF that this] show ?thesis by simp
  qed
  then have "fold max (map depth cs) d \<le> max d (6 - length p)" for d
  proof (induction cs arbitrary: d)
    case Nil then show ?case by simp
  next
    case (Cons c cs)
    have "fold max (map depth cs) (max (depth c) d) \<le> max (max (depth c) d) (6 - length p)"
      using Cons.IH[of "max (depth c) d"] Cons.prems by simp
    moreover have "depth c \<le> 6 - length p" using Cons.prems by simp
    ultimately show ?case by simp
  qed
  from this[of 0] show ?case using lp by simp
qed

lemma invar_wellFormed: "invar p n \<Longrightarrow> wellFormed n"
proof (induction n arbitrary: p)
  case (Leaf h es) then show ?case by simp
next
  case (Internal bm cs)
  have bm: "bm \<noteq> 0" and all: "list_all2 (\<lambda>i c. invar (p @ [i]) c) (bitsOf bm) cs"
    using Internal.prems by simp_all
  have "length cs = unat (popcount bm)"
    using list_all2_lengthD[OF all] by (simp add: popcount_correct bitsOf_def)
  moreover have "wellFormed c" if "c \<in> set cs" for c
  proof -
    from that obtain j where j: "j < length cs" "c = cs ! j" by (auto simp: in_set_conv_nth)
    have "invar (p @ [bitsOf bm ! j]) c" using list_all2_nthD2[OF all j(1)] j(2) by simp
    from Internal.IH[OF that this] show ?thesis .
  qed
  ultimately show ?case using bm by simp
qed

lemma updateLeafNode_collision:
  "\<exists>es' ins. updateLeafNode h es h s k v = Inr (Leaf h es', ins) \<and> (k, v) \<in> set es'"
proof (cases "findIndex (\<lambda>(k', _). k' = k) es = - 1")
  case True
  then show ?thesis by (auto simp: updateLeafNode_def)
next
  case False
  have "nat (findIndex (\<lambda>(k', _). k' = k) es) < length es"
    using findIndex_update[OF False] by simp
  then show ?thesis using False by (auto simp: updateLeafNode_def set_update_memI)
qed

lemma mergeLeaves_returns:
  assumes "h1 \<noteq> h2"
  shows "\<exists>n. mergeLeaves s h1 es h2 k v = Some n"
  using updateLeafNode_diff[OF assms, of s es k v] by blast

lemma build_one:
  "build [Insert [0x61] (1::int)] = Inr \<lparr>root = Some (Leaf 3761708825 [([0x61], 1)]), size_hamt = 1\<rparr>"
  by (simp add: build_def empty_hamt_def insert_hamt_def hash_def createLeaf_def)

lemma hash_collision: "hash [0x41, 0x61] = hash [0x42, 0x42]"
  by (simp add: hash_def)

lemma build_three:
  "build [Insert [0x61] (1::int), Insert [0x62] 2, Remove [0x61]]
     = Inr \<lparr>root = Some (Internal 64 [Leaf 718772166 [([0x62], 2)]]), size_hamt = 1\<rparr>"
  by (simp add: build_def empty_hamt_def insert_hamt_def remove_hamt_def hash_def
      createLeaf_def createInternal_def updateNode.simps(2) updateInternalNode.simps
      updateLeafNode_def mergeLeaves.simps bitpos_def maskHash_def popcount_def
      removeNode.simps(2) removeInternalNode.simps removeLeafNode_def Let_def)

section \<open>The claims\<close>

text \<open>
  Claim C1 (insert-then-lookup).  For every map \<open>m\<close> built from the empty map by a sequence
  of insert and remove operations, every key \<open>k\<close> and every value \<open>v\<close>:
  \<open>insert(m, k, v)\<close> returns a map, and looking \<open>k\<close> up in it returns \<open>Some v\<close>.
\<close>

theorem insert_then_lookup:
  assumes "build ops = Inr m"
  shows "\<exists>m'. insert_hamt m k v = Inr m' \<and> lookup m' k = Inr (Some v)"
  using insert_correct[OF build_invar[OF assms], of k v] by auto

theorem insert_then_lookup_witness:
  "build [Insert [0x61] (1::int)]
     = Inr \<lparr>root = Some (Leaf 3761708825 [([0x61], 1)]), size_hamt = 1\<rparr> \<and>
   (\<exists>m'. insert_hamt \<lparr>root = Some (Leaf 3761708825 [([0x61], 1::int)]), size_hamt = 1\<rparr> [0x62] 2
            = Inr m' \<and> lookup m' [0x62] = Inr (Some 2))"
  using build_one insert_then_lookup[OF build_one, of "[0x62]" 2] by simp

text \<open>
  Claim C2 (remove-then-lookup).  For every built map \<open>m\<close>, key \<open>k\<close> and value \<open>v\<close>:
  inserting \<open>k\<close>, then removing \<open>k\<close>, then looking \<open>k\<close> up returns \<open>None\<close>; every
  one of the three calls returns.
\<close>

theorem remove_then_lookup:
  assumes "build ops = Inr m"
  shows "\<exists>m' m''. insert_hamt m k v = Inr m' \<and> remove_hamt m' k = Inr m'' \<and>
           lookup m'' k = Inr None"
proof -
  from insert_correct[OF build_invar[OF assms], of k v] obtain m' where
    m': "insert_hamt m k v = Inr m'" "invar_hamt m'" by blast
  from remove_correct[OF m'(2), of k] obtain m'' where
    "remove_hamt m' k = Inr m''" "lookup m'' k = Inr None" by auto
  with m'(1) show ?thesis by blast
qed

theorem remove_then_lookup_witness:
  "build [Insert [0x61] (1::int)]
     = Inr \<lparr>root = Some (Leaf 3761708825 [([0x61], 1)]), size_hamt = 1\<rparr> \<and>
   (\<exists>m' m''. insert_hamt \<lparr>root = Some (Leaf 3761708825 [([0x61], 1::int)]), size_hamt = 1\<rparr> [0x62] 2
            = Inr m' \<and> remove_hamt m' [0x62] = Inr m'' \<and> lookup m'' [0x62] = Inr None)"
  using build_one remove_then_lookup[OF build_one, of "[0x62]" 2] by simp

text \<open>
  Claim C3 (size).  For every built map the \<open>size\<close> field equals the number of
  (key, value) entries in the Leaf nodes below the root (0 when the root is absent), and
  this is the number of distinct keys that \<open>lookup\<close> finds.  In particular, inserting a
  list of pairs with pairwise distinct keys, in whatever order the list has them, into
  the empty map gives a map whose size is the number of those keys.
\<close>

theorem size_correct:
  "(build ops = Inr m \<longrightarrow>
      size_hamt m = int (case root m of None \<Rightarrow> 0 | Some n \<Rightarrow> entryCount n) \<and>
      finite (keysOf m) \<and> size_hamt m = int (card (keysOf m))) \<and>
   (distinct (map fst kvs) \<longrightarrow>
      (\<exists>m'. build (map (\<lambda>(k, v). Insert k v) kvs) = Inr m' \<and>
            size_hamt m' = int (length kvs)))"
proof (intro conjI impI)
  assume b: "build ops = Inr m"
  show "size_hamt m = int (case root m of None \<Rightarrow> 0 | Some n \<Rightarrow> entryCount n)"
    using build_invar[OF b] by (simp add: invar_hamt_def split: option.splits)
  have c: "finite (keysOf m) \<and> size_hamt m = int (card (keysOf m))"
    using applyOps_card[OF invar_empty, of ops m] b
    by (simp add: build_def keysOf_empty) (simp add: empty_hamt_def)
  then show "finite (keysOf m)" "size_hamt m = int (card (keysOf m))" by simp_all
next
  assume d: "distinct (map fst kvs)"
  from applyOps_inserts[OF invar_empty, of kvs] obtain m' where
    m': "build (map (\<lambda>(k, v). Insert k v) kvs) = Inr m'" "keysOf m' = set (map fst kvs)"
    by (auto simp: build_def keysOf_empty)
  have "size_hamt m' = int (card (keysOf m'))"
    using applyOps_card[OF invar_empty, of "map (\<lambda>(k, v). Insert k v) kvs" m'] m'(1)
    by (simp add: build_def keysOf_empty) (simp add: empty_hamt_def)
  moreover have "card (set (map fst kvs)) = length (map fst kvs)"
    using d by (rule distinct_card)
  ultimately have "size_hamt m' = int (length kvs)"
    using m'(2) by simp
  with m'(1) show "\<exists>m'. build (map (\<lambda>(k, v). Insert k v) kvs) = Inr m' \<and>
            size_hamt m' = int (length kvs)" by blast
qed

theorem size_correct_witness:
  "build [Insert [0x61] (1::int)]
     = Inr \<lparr>root = Some (Leaf 3761708825 [([0x61], 1)]), size_hamt = 1\<rparr> \<and>
   distinct (map fst [([0x61 :: 16 word], 1::int), ([0x62], 2)]) \<and>
   card (keysOf \<lparr>root = Some (Leaf 3761708825 [([0x61], 1::int)]), size_hamt = 1\<rparr>) = 1 \<and>
   (\<exists>m'. build [Insert [0x61] (1::int), Insert [0x62] 2] = Inr m' \<and> size_hamt m' = 2)"
  using build_one
    size_correct[of "[Insert [0x61] (1::int)]"
      "\<lparr>root = Some (Leaf 3761708825 [([0x61], 1::int)]), size_hamt = 1\<rparr>"
      "[([0x61], 1::int), ([0x62], 2)]"]
  by simp

text \<open>
  Claim C4 (frame).  For every built map \<open>m\<close> and keys \<open>k' \<noteq> k\<close>: inserting \<open>k\<close> (with any
  value) and removing \<open>k\<close> both return a map in which \<open>lookup\<close> of \<open>k'\<close> gives what it
  gave in \<open>m\<close>.
\<close>

theorem frame:
  assumes "build ops = Inr m" "k' \<noteq> k"
  shows "(\<exists>m'. insert_hamt m k v = Inr m' \<and> lookup m' k' = lookup m k') \<and>
         (\<exists>m'. remove_hamt m k = Inr m' \<and> lookup m' k' = lookup m k')"
  using insert_correct[OF build_invar[OF assms(1)], of k v]
    remove_correct[OF build_invar[OF assms(1)], of k] assms(2)
  by auto

theorem frame_witness:
  "build [Insert [0x61] (1::int)]
     = Inr \<lparr>root = Some (Leaf 3761708825 [([0x61], 1)]), size_hamt = 1\<rparr> \<and>
   [0x61 :: 16 word] \<noteq> [0x62] \<and>
   (\<exists>m'. insert_hamt \<lparr>root = Some (Leaf 3761708825 [([0x61], 1::int)]), size_hamt = 1\<rparr> [0x62] 2
            = Inr m' \<and> lookup m' [0x61] = Inr (Some 1)) \<and>
   (\<exists>m'. remove_hamt \<lparr>root = Some (Leaf 3761708825 [([0x61], 1::int)]), size_hamt = 1\<rparr> [0x62]
            = Inr m' \<and> lookup m' [0x61] = Inr (Some 1))"
proof -
  have ne: "[0x61 :: 16 word] \<noteq> [0x62]" by simp
  have l: "lookup \<lparr>root = Some (Leaf 3761708825 [([0x61], 1::int)]), size_hamt = 1\<rparr> [0x61]
      = Inr (Some 1)"
    by (simp add: lookup_def hash_def lookupLeafNode_def)
  show ?thesis
    using build_one ne frame[OF build_one ne, of 2] by (simp add: l)
qed

text \<open>
  Claim C5 (overwrite).  For every built map \<open>m\<close>, key \<open>k\<close> and values \<open>v1\<close>, \<open>v2\<close>:
  inserting \<open>k\<close> with \<open>v1\<close> and then with \<open>v2\<close> gives a map in which \<open>lookup\<close> of \<open>k\<close>
  returns \<open>Some v2\<close> and whose size is the size after the first insert.
\<close>

theorem overwrite:
  assumes "build ops = Inr m"
  shows "\<exists>m1 m2. insert_hamt m k v1 = Inr m1 \<and> insert_hamt m1 k v2 = Inr m2 \<and>
           lookup m2 k = Inr (Some v2) \<and> size_hamt m2 = size_hamt m1"
proof -
  from insert_correct[OF build_invar[OF assms], of k v1] obtain m1 where
    m1: "insert_hamt m k v1 = Inr m1" "invar_hamt m1" "lookup m1 k = Inr (Some v1)" by auto
  from insert_correct[OF m1(2), of k v2] obtain m2 where
    "insert_hamt m1 k v2 = Inr m2" "lookup m2 k = Inr (Some v2)" "size_hamt m2 = size_hamt m1"
    using m1(3) by auto
  with m1(1) show ?thesis by blast
qed

theorem overwrite_witness:
  "build [Insert [0x61] (1::int)]
     = Inr \<lparr>root = Some (Leaf 3761708825 [([0x61], 1)]), size_hamt = 1\<rparr> \<and>
   (\<exists>m1 m2. insert_hamt \<lparr>root = Some (Leaf 3761708825 [([0x61], 1::int)]), size_hamt = 1\<rparr> [0x62] 2
              = Inr m1 \<and> insert_hamt m1 [0x62] 3 = Inr m2 \<and>
           lookup m2 [0x62] = Inr (Some 3) \<and> size_hamt m2 = size_hamt m1)"
  using build_one overwrite[OF build_one, of "[0x62]" 2 3] by simp

text \<open>
  Claim C6 (removing an absent key; the empty map).  For every built map \<open>m\<close> and key \<open>k\<close>
  that \<open>lookup\<close> does not find, \<open>remove(m, k)\<close> returns a map of the same size in which
  every key looks up as in \<open>m\<close>.  On the empty map \<open>remove\<close> and \<open>lookup\<close> return (no
  error): \<open>remove\<close> gives a map with absent root and size 0, \<open>lookup\<close> gives \<open>None\<close>.
\<close>

theorem remove_absent:
  "(build ops = Inr m \<longrightarrow> lookup m k = Inr None \<longrightarrow>
      (\<exists>m'. remove_hamt m k = Inr m' \<and> size_hamt m' = size_hamt m \<and>
            (\<forall>k'. lookup m' k' = lookup m k'))) \<and>
   remove_hamt (empty_hamt :: 'v HAMT) k0 = Inr \<lparr>root = None, size_hamt = 0\<rparr> \<and>
   lookup (empty_hamt :: 'v HAMT) k0 = Inr None"
proof (intro conjI impI)
  assume b: "build ops = Inr m" and l: "lookup m k = Inr None"
  from remove_correct[OF build_invar[OF b], of k] obtain m' where
    m': "remove_hamt m k = Inr m'" "size_hamt m' = size_hamt m"
    "\<And>k'. lookup m' k' = (if k' = k then Inr None else lookup m k')"
    using l by auto
  have "lookup m' k' = lookup m k'" for k'
    using m'(3)[of k'] l by simp
  with m'(1,2) show "\<exists>m'. remove_hamt m k = Inr m' \<and> size_hamt m' = size_hamt m \<and>
            (\<forall>k'. lookup m' k' = lookup m k')" by blast
next
  show "remove_hamt (empty_hamt :: 'v HAMT) k0 = Inr \<lparr>root = None, size_hamt = 0\<rparr>"
    by (simp add: remove_hamt_def empty_hamt_def)
  show "lookup (empty_hamt :: 'v HAMT) k0 = Inr None"
    by (simp add: lookup_def empty_hamt_def)
qed

theorem remove_absent_witness:
  "build [Insert [0x61] (1::int)]
     = Inr \<lparr>root = Some (Leaf 3761708825 [([0x61], 1)]), size_hamt = 1\<rparr> \<and>
   lookup \<lparr>root = Some (Leaf 3761708825 [([0x61], 1::int)]), size_hamt = 1\<rparr> [0x62] = Inr None \<and>
   (\<exists>m'. remove_hamt \<lparr>root = Some (Leaf 3761708825 [([0x61], 1::int)]), size_hamt = 1\<rparr> [0x62]
            = Inr m' \<and> size_hamt m' = 1)"
proof -
  have l: "lookup \<lparr>root = Some (Leaf 3761708825 [([0x61], 1::int)]), size_hamt = 1\<rparr> [0x62]
      = Inr None"
    by (simp add: lookup_def hash_def lookupLeafNode_def)
  show ?thesis
    using build_one l
      remove_absent[of "[Insert [0x61] (1::int)]"
        "\<lparr>root = Some (Leaf 3761708825 [([0x61], 1::int)]), size_hamt = 1\<rparr>" "[0x62]"]
    by auto
qed

text \<open>
  Claim C7 (hash collisions).  For two distinct keys with the same 32-bit hash, inserted
  one after the other into any built map, \<open>lookup\<close> returns each key's own value;
  removing either key makes its \<open>lookup\<close> return \<open>None\<close> and leaves the other key's
  \<open>lookup\<close> result as it was.
\<close>

theorem collision_handling:
  assumes "build ops = Inr m" "k1 \<noteq> k2" "hash k1 = hash k2"
  shows "\<exists>m1 m2. insert_hamt m k1 v1 = Inr m1 \<and> insert_hamt m1 k2 v2 = Inr m2 \<and>
      lookup m2 k1 = Inr (Some v1) \<and> lookup m2 k2 = Inr (Some v2) \<and>
      (\<exists>m3. remove_hamt m2 k1 = Inr m3 \<and> lookup m3 k1 = Inr None \<and>
             lookup m3 k2 = Inr (Some v2)) \<and>
      (\<exists>m3. remove_hamt m2 k2 = Inr m3 \<and> lookup m3 k2 = Inr None \<and>
             lookup m3 k1 = Inr (Some v1))"
proof -
  from insert_correct[OF build_invar[OF assms(1)], of k1 v1] obtain m1 where
    m1: "insert_hamt m k1 v1 = Inr m1" "invar_hamt m1" "lookup m1 k1 = Inr (Some v1)" by auto
  from insert_correct[OF m1(2), of k2 v2] obtain m2 where
    m2: "insert_hamt m1 k2 v2 = Inr m2" "invar_hamt m2" "lookup m2 k2 = Inr (Some v2)"
    "lookup m2 k1 = Inr (Some v1)"
    using m1(3) assms(2) by auto
  from remove_correct[OF m2(2), of k1] obtain m3 where
    m3: "remove_hamt m2 k1 = Inr m3" "lookup m3 k1 = Inr None" "lookup m3 k2 = Inr (Some v2)"
    using m2(3) assms(2) by auto
  from remove_correct[OF m2(2), of k2] obtain m4 where
    m4: "remove_hamt m2 k2 = Inr m4" "lookup m4 k2 = Inr None" "lookup m4 k1 = Inr (Some v1)"
    using m2(4) assms(2) by auto
  show ?thesis using m1(1) m2(1,3,4) m3 m4 by blast
qed

theorem collision_handling_witness:
  "build [Insert [0x61] (1::int)]
     = Inr \<lparr>root = Some (Leaf 3761708825 [([0x61], 1)]), size_hamt = 1\<rparr> \<and>
   [0x41, 0x61 :: 16 word] \<noteq> [0x42, 0x42] \<and> hash [0x41, 0x61] = hash [0x42, 0x42] \<and>
   (\<exists>m1 m2. insert_hamt \<lparr>root = Some (Leaf 3761708825 [([0x61], 1::int)]), size_hamt = 1\<rparr>
                [0x41, 0x61] 2 = Inr m1 \<and>
      insert_hamt m1 [0x42, 0x42] 3 = Inr m2 \<and>
      lookup m2 [0x41, 0x61] = Inr (Some 2) \<and> lookup m2 [0x42, 0x42] = Inr (Some 3))"
proof -
  have ne: "[0x41, 0x61 :: 16 word] \<noteq> [0x42, 0x42]" by simp
  from collision_handling[OF build_one ne hash_collision, of 2 3] build_one ne hash_collision
  show ?thesis by blast
qed

text \<open>
  Claim C8 (shape).  In every built map, every Internal node below the root has a nonzero
  bitmap and as many children as \<open>popcount\<close> of its bitmap, and every Leaf below the root
  holds at least one entry.  The maps quantified over include those produced by
  \<open>remove\<close>, so removal leaves no empty Leaf and no Internal node with bitmap 0.
\<close>

theorem shape_invariant:
  assumes "build ops = Inr m" "root m = Some n"
  shows "wellFormed n"
  using build_invar[OF assms(1)] assms(2) invar_wellFormed[of "[]" n]
  by (simp add: invar_hamt_def)

theorem shape_invariant_witness:
  "build [Insert [0x61] (1::int), Insert [0x62] 2, Remove [0x61]]
     = Inr \<lparr>root = Some (Internal 64 [Leaf 718772166 [([0x62], 2)]]), size_hamt = 1\<rparr> \<and>
   wellFormed (Internal 64 [Leaf 718772166 [([0x62], 2::int)]])"
proof -
  have "wellFormed (Internal 64 [Leaf 718772166 [([0x62], 2::int)]])"
    by (rule shape_invariant[OF build_three]) simp
  with build_three show ?thesis by (rule conjI)
qed

text \<open>
  Claim C9 (\<open>mergeLeaves\<close>).  Merging a Leaf with a new key of a different hash returns.
  If the two 5-bit slices at the current shift differ, the result is an Internal node
  with two children whose bitmap is the union of the two bits and whose slot 0 holds the
  child with the lower bit (words are compared unsigned).  If the slices coincide, the
  result is an Internal node with that one bit and one child, the result of merging at
  \<open>shift + 5\<close>.
\<close>

theorem mergeLeaves_spec:
  assumes "nodeHash \<noteq> hash'"
  shows "\<exists>merged. mergeLeaves shift nodeHash nodeEntries hash' key value = Some merged \<and>
     (maskHash nodeHash shift \<noteq> maskHash hash' shift \<longrightarrow>
        merged = Internal (bitpos nodeHash shift OR bitpos hash' shift)
                   (if bitpos nodeHash shift < bitpos hash' shift
                    then [Leaf nodeHash nodeEntries, Leaf hash' [(key, value)]]
                    else [Leaf hash' [(key, value)], Leaf nodeHash nodeEntries])) \<and>
     (maskHash nodeHash shift = maskHash hash' shift \<longrightarrow>
        (\<exists>deeper. mergeLeaves (shift + 5) nodeHash nodeEntries hash' key value = Some deeper \<and>
                  merged = Internal (bitpos nodeHash shift) [deeper]))"
proof -
  from mergeLeaves_returns[OF assms, of shift nodeEntries key "value"] obtain merged where
    m: "mergeLeaves shift nodeHash nodeEntries hash' key value = Some merged" by blast
  have s: "sliceAt nodeHash shift = sliceAt hash' shift
      \<longleftrightarrow> maskHash nodeHash shift = maskHash hash' shift"
    by (simp add: sliceAt_def word_unat_eq_iff)
  note u = mergeLeaves_unfold[of shift nodeHash nodeEntries hash' key "value"]
  show ?thesis
  proof (cases "maskHash nodeHash shift = maskHash hash' shift")
    case True
    then have "Option.bind (mergeLeaves (shift + 5) nodeHash nodeEntries hash' key value)
        (\<lambda>n. Some (Internal (bitpos nodeHash shift) [n])) = Some merged"
      using m u s by simp
    then obtain deeper where
      "mergeLeaves (shift + 5) nodeHash nodeEntries hash' key value = Some deeper"
      "merged = Internal (bitpos nodeHash shift) [deeper]"
      unfolding bind_eq_Some_conv by auto
    then show ?thesis using m True by simp
  next
    case False
    then have "merged = Internal (bitpos nodeHash shift OR bitpos hash' shift)
        (if sliceAt nodeHash shift < sliceAt hash' shift
         then [Leaf nodeHash nodeEntries, Leaf hash' [(key, value)]]
         else [Leaf hash' [(key, value)], Leaf nodeHash nodeEntries])"
      using m u s by simp
    then show ?thesis using m False by (simp add: bitpos_less)
  qed
qed

theorem mergeLeaves_spec_witness:
  "(1 :: 32 word) \<noteq> 33 \<and>
   (\<exists>merged deeper.
      mergeLeaves 0 1 [([0x61], 1::int)] 33 [0x62] 2 = Some merged \<and>
      mergeLeaves 5 1 [([0x61], 1::int)] 33 [0x62] 2 = Some deeper \<and>
      merged = Internal 2 [deeper] \<and>
      deeper = Internal 3 [Leaf 1 [([0x61], 1)], Leaf 33 [([0x62], 2)]])"
proof -
  have ne: "(1 :: 32 word) \<noteq> 33" by simp
  show ?thesis
    using ne mergeLeaves_spec[OF ne, of 0 "[([0x61], 1::int)]" "[0x62]" 2]
      mergeLeaves_spec[OF ne, of 5 "[([0x61], 1::int)]" "[0x62]" 2]
    by (simp add: maskHash_def bitpos_def)
qed

text \<open>
  Claim C10 (termination and depth).  \<open>insert\<close> returns for every key, value and built
  map.  \<open>mergeLeaves\<close>, which \<open>updateLeafNode\<close> calls only when the Leaf's hash differs
  from the new key's hash, returns for every two different hashes at every shift.  A key
  whose hash equals the Leaf's hash is stored in that Leaf (no recursion).  No built trie
  is deeper than 7 Internal levels, the number of 5-bit slices of a 32-bit hash.
\<close>

theorem insert_terminates:
  "(build ops = Inr m \<longrightarrow>
      (\<exists>m'. insert_hamt m k v = Inr m') \<and> (\<forall>n. root m = Some n \<longrightarrow> depth n \<le> 7)) \<and>
   (nodeHash \<noteq> hash' \<longrightarrow>
      (\<exists>merged. mergeLeaves shift nodeHash nodeEntries hash' key value = Some merged)) \<and>
   (\<exists>entries' inserted.
      updateLeafNode hash' nodeEntries hash' shift key value = Inr (Leaf hash' entries', inserted) \<and>
      (key, value) \<in> set entries')"
proof (intro conjI impI allI)
  assume b: "build ops = Inr m"
  show "\<exists>m'. insert_hamt m k v = Inr m'"
    using insert_correct[OF build_invar[OF b], of k v] by blast
  fix n assume "root m = Some n"
  then have "invar [] n" using build_invar[OF b] by (simp add: invar_hamt_def)
  from invar_depth[OF this] show "depth n \<le> 7" by simp
next
  assume "nodeHash \<noteq> hash'"
  then show "\<exists>merged. mergeLeaves shift nodeHash nodeEntries hash' key value = Some merged"
    by (rule mergeLeaves_returns)
next
  show "\<exists>entries' inserted.
      updateLeafNode hash' nodeEntries hash' shift key value = Inr (Leaf hash' entries', inserted) \<and>
      (key, value) \<in> set entries'"
    by (rule updateLeafNode_collision)
qed

theorem insert_terminates_witness:
  "build [Insert [0x61] (1::int), Insert [0x62] 2, Remove [0x61]]
     = Inr \<lparr>root = Some (Internal 64 [Leaf 718772166 [([0x62], 2)]]), size_hamt = 1\<rparr> \<and>
   (1 :: 32 word) \<noteq> 33 \<and>
   (\<exists>m'. insert_hamt
           \<lparr>root = Some (Internal 64 [Leaf 718772166 [([0x62], 2::int)]]), size_hamt = 1\<rparr>
           [0x61] 3 = Inr m') \<and>
   depth (Internal 64 [Leaf 718772166 [([0x62], 2::int)]]) \<le> 7 \<and>
   (\<exists>merged. mergeLeaves 0 1 [([0x61], 1::int)] 33 [0x62] 2 = Some merged)"
  using build_three
    insert_terminates[of "[Insert [0x61] (1::int), Insert [0x62] 2, Remove [0x61]]"
      "\<lparr>root = Some (Internal 64 [Leaf 718772166 [([0x62], 2::int)]]), size_hamt = 1\<rparr>"
      "[0x61]" 3 1 33 0 "[([0x61], 1::int)]" "[0x62]" 2]
  by simp

end
